theory Spec2Isabelle
  imports Main "HOL-Library.Word"
begin

unbundle bit_operations_syntax

section \<open>The kernel heap of \<open>kernel/dalloc.c\<close>\<close>

subsection \<open>Data model\<close>

text \<open>
  Addresses are 64-bit (the kernel runs on RISC-V 64), C's \<open>unsigned\<close> is 32-bit.
  A \<open>struct dheader\<close> is 16 bytes: two \<open>unsigned\<close> fields and one pointer. The field
  \<open>next\<close> of the source is called \<open>nxt\<close> here, \<open>next\<close> being a keyword.
\<close>

type_synonym addr = "64 word"
type_synonym uint = "32 word"

record dheader =
  data_size :: uint
  used :: uint
  nxt :: addr

text \<open>
  Physical memory, seen through the header type: the header stored at each address. All
  header addresses the allocator ever writes differ by multiples of 16, so two headers
  are either the same or do not overlap.
\<close>

type_synonym memory = "addr \<Rightarrow> dheader"

text \<open>The global \<open>dmem\<close>; its spinlock has no sequential content and is left out.\<close>

record dmem =
  start :: addr
  mem :: memory

definition ALIGNMENT_SIZE :: uint where
  "ALIGNMENT_SIZE = 16"

definition HEADER_SIZE :: uint where
  "HEADER_SIZE = 16"

subsection \<open>\<open>dinit\<close>\<close>

text \<open>
  The macros \<open>PHYSTOP\<close> (memlayout.h) and \<open>HEAP_SIZE\<close> (param.h) are declared outside the
  files at hand and are parameters here. The assignment to the \<open>unsigned\<close> field
  \<open>data_size\<close> truncates to 32 bits.
\<close>

definition dinit :: "addr \<Rightarrow> addr \<Rightarrow> dmem \<Rightarrow> dmem" where
  "dinit PHYSTOP HEAP_SIZE s =
     (let s1 = s\<lparr>start := PHYSTOP - HEAP_SIZE\<rparr>;
          m1 = (mem s1)(start s1 := (mem s1 (start s1))\<lparr>data_size := ucast (HEAP_SIZE - ucast HEADER_SIZE)\<rparr>);
          m2 = m1(start s1 := (m1 (start s1))\<lparr>used := 0\<rparr>);
          m3 = m2(start s1 := (m2 (start s1))\<lparr>nxt := 0\<rparr>)
      in s1\<lparr>mem := m3\<rparr>)"

subsection \<open>\<open>dalloc\<close>\<close>

text \<open>Lines 70 and 73: the size with its header, rounded up, in 32-bit arithmetic.\<close>

definition required_size :: "uint \<Rightarrow> uint" where
  "required_size sz =
     ((sz + HEADER_SIZE) + (ALIGNMENT_SIZE - 1)) AND NOT (ALIGNMENT_SIZE - 1)"

text \<open>Lines 86 to 93: the five writes of the split, each reading the memory left by
  the one before.\<close>

definition split_block :: "uint \<Rightarrow> uint \<Rightarrow> memory \<Rightarrow> addr \<Rightarrow> memory" where
  "split_block sz required m cur =
     (let new_block = cur + ucast required;
          m1 = m(new_block := (m new_block)\<lparr>data_size := data_size (m cur) - required\<rparr>);
          m2 = m1(new_block := (m1 new_block)\<lparr>nxt := nxt (m1 cur)\<rparr>);
          m3 = m2(new_block := (m2 new_block)\<lparr>used := 0\<rparr>);
          m4 = m3(cur := (m3 cur)\<lparr>data_size := (sz + (ALIGNMENT_SIZE - 1)) AND NOT (ALIGNMENT_SIZE - 1)\<rparr>);
          m5 = m4(cur := (m4 cur)\<lparr>nxt := new_block\<rparr>)
      in m5)"

text \<open>Lines 84 to 97: what happens to the block the scan selects.\<close>

definition take_block :: "uint \<Rightarrow> uint \<Rightarrow> memory \<Rightarrow> addr \<Rightarrow> memory" where
  "take_block sz required m cur =
     (let m1 = (if required < data_size (m cur) then split_block sz required m cur else m)
      in m1(cur := (m1 cur)\<lparr>used := 1\<rparr>))"

text \<open>The \<open>while\<close> loop of lines 80 to 108. It need not end on a cyclic chain: \<open>None\<close>
  is the run that never returns. The result is the memory and the returned pointer,
  \<open>0\<close> for \<open>NULL\<close>.\<close>

partial_function (option) dalloc_loop :: "uint \<Rightarrow> uint \<Rightarrow> memory \<Rightarrow> addr \<Rightarrow> (memory \<times> addr) option" where
  "dalloc_loop sz required m cur =
     (if cur = 0 then Some (m, 0)
      else if used (m cur) = 0 \<and> required \<le> data_size (m cur)
        then Some (take_block sz required m cur, cur + 16)
      else dalloc_loop sz required m (nxt (m cur)))"

definition dalloc :: "dmem \<Rightarrow> uint \<Rightarrow> (dmem \<times> addr) option" where
  "dalloc s sz =
     map_option (\<lambda>(m, p). (s\<lparr>mem := m\<rparr>, p))
       (dalloc_loop sz (required_size sz) (mem s) (start s))"

subsection \<open>\<open>coalesce_blocks\<close>\<close>

partial_function (option) coalesce_loop :: "memory \<Rightarrow> addr \<Rightarrow> memory option" where
  "coalesce_loop m cur =
     (if cur \<noteq> 0 \<and> nxt (m cur) \<noteq> 0 then
        (if used (m cur) = 0 \<and> used (m (nxt (m cur))) = 0 then
           (let m1 = m(cur := (m cur)\<lparr>data_size :=
                        data_size (m cur) + (data_size (m (nxt (m cur))) + HEADER_SIZE)\<rparr>);
                m2 = m1(cur := (m1 cur)\<lparr>nxt := nxt (m1 (nxt (m1 cur)))\<rparr>)
            in coalesce_loop m2 cur)
         else coalesce_loop m (nxt (m cur)))
      else Some m)"

definition coalesce_blocks :: "dmem \<Rightarrow> dmem option" where
  "coalesce_blocks s = map_option (\<lambda>m. s\<lparr>mem := m\<rparr>) (coalesce_loop (mem s) (start s))"

subsection \<open>\<open>dfree\<close>\<close>

text \<open>The two calls of \<open>panic\<close>, named as the specification names them:
  \<open>MisalignedAddress\<close> is "dfree: Address is not properly aligned." and
  \<open>UnknownAddress\<close> is "dfree: Invalid address.". A result carries the state at the
  return or at the panic.\<close>

datatype panic = MisalignedAddress | UnknownAddress

partial_function (option) dfree_loop :: "dmem \<Rightarrow> addr \<Rightarrow> addr \<Rightarrow> (dmem \<times> panic option) option" where
  "dfree_loop s block_header cur =
     (if cur = 0 then Some (s, Some UnknownAddress)
      else if cur = block_header then
        map_option (\<lambda>s'. (s', None))
          (coalesce_blocks (s\<lparr>mem := (mem s)(cur := (mem s cur)\<lparr>used := 0\<rparr>)\<rparr>))
      else dfree_loop s block_header (nxt (mem s cur)))"

definition dfree :: "dmem \<Rightarrow> addr \<Rightarrow> (dmem \<times> panic option) option" where
  "dfree s a =
     (let block_header = a - 16
      in if block_header mod ucast ALIGNMENT_SIZE \<noteq> 0 then Some (s, Some MisalignedAddress)
         else dfree_loop s block_header (start s))"

subsection \<open>The heap as the specification describes it\<close>

text \<open>The fit test of line 82.\<close>

definition fits :: "memory \<Rightarrow> uint \<Rightarrow> addr \<Rightarrow> bool" where
  "fits m required a \<longleftrightarrow> used (m a) = 0 \<and> required \<le> data_size (m a)"

definition aligned16 :: "'a::len word \<Rightarrow> bool" where
  "aligned16 w \<longleftrightarrow> unat w mod 16 = 0"

text \<open>\<open>chain m p as\<close>: following \<open>next\<close> from \<open>p\<close> visits exactly the headers \<open>as\<close>, in
  this order, and then reaches the null pointer.\<close>

fun chain :: "memory \<Rightarrow> addr \<Rightarrow> addr list \<Rightarrow> bool" where
  "chain m p [] = (p = 0)"
| "chain m p (a # as) = (p = a \<and> a \<noteq> 0 \<and> chain m (nxt (m a)) as)"

text \<open>\<open>laid_out m lo as hi\<close>: the blocks \<open>as\<close> tile the byte range from \<open>lo\<close> to \<open>hi\<close>,
  each block being its 16-byte header followed by \<open>data_size\<close> bytes.\<close>

fun laid_out :: "memory \<Rightarrow> nat \<Rightarrow> addr list \<Rightarrow> nat \<Rightarrow> bool" where
  "laid_out m lo [] hi = (lo = hi)"
| "laid_out m lo (a # as) hi =
     (unat a = lo \<and> laid_out m (lo + 16 + unat (data_size (m a))) as hi)"

text \<open>The sum of header size and data size over a sequence of blocks.\<close>

definition capacity :: "memory \<Rightarrow> addr list \<Rightarrow> nat" where
  "capacity m as = sum_list (map (\<lambda>a. 16 + unat (data_size (m a))) as)"

text \<open>No two neighbours in the sequence are both free.\<close>

fun coalesced :: "memory \<Rightarrow> addr list \<Rightarrow> bool" where
  "coalesced m (a # b # bs) = (\<not> (used (m a) = 0 \<and> used (m b) = 0) \<and> coalesced m (b # bs))"
| "coalesced m bs = True"

text \<open>What a coalescing pass from memory \<open>m\<close> with blocks \<open>as\<close> to memory \<open>m'\<close> with
  blocks \<open>as'\<close> may do: it removes headers from the sequence, it writes no header
  outside the sequence, it keeps every used flag, and it keeps every used block with
  its header as it was.\<close>

definition coalesce_post :: "memory \<Rightarrow> addr list \<Rightarrow> memory \<Rightarrow> addr list \<Rightarrow> bool" where
  "coalesce_post m as m' as' \<longleftrightarrow>
     set as' \<subseteq> set as \<and>
     (\<forall>a. a \<notin> set as \<longrightarrow> m' a = m a) \<and>
     (\<forall>a \<in> set as'. used (m' a) = used (m a)) \<and>
     (\<forall>a \<in> set as. used (m a) \<noteq> 0 \<longrightarrow> a \<in> set as' \<and> m' a = m a)"

text \<open>The invariants of the data model, for a heap that starts at \<open>base\<close> and is \<open>ext\<close>
  bytes long: the headers \<open>as\<close> form a null-terminated chain from \<open>start\<close>, they tile
  the extent, and addresses and sizes are multiples of 16.\<close>

definition heap_inv :: "addr \<Rightarrow> nat \<Rightarrow> dmem \<Rightarrow> addr list \<Rightarrow> bool" where
  "heap_inv base ext s as \<longleftrightarrow>
     start s = base \<and> as \<noteq> [] \<and> chain (mem s) base as \<and>
     laid_out (mem s) (unat base) as (unat base + ext) \<and>
     list_all (\<lambda>a. aligned16 a \<and> aligned16 (data_size (mem s a))) as \<and>
     unat base + ext < 2 ^ 64 \<and> ext < 2 ^ 32"

text \<open>The headers that following \<open>next\<close> from \<open>p\<close> ever visits, on any memory.\<close>

inductive_set blocks :: "memory \<Rightarrow> addr \<Rightarrow> addr set" for m :: memory and p :: addr where
  first: "p \<noteq> 0 \<Longrightarrow> p \<in> blocks m p"
| step: "a \<in> blocks m p \<Longrightarrow> nxt (m a) \<noteq> 0 \<Longrightarrow> nxt (m a) \<in> blocks m p"

text \<open>What the two macros must satisfy for \<open>dinit\<close> to lay out a heap: the base
  \<open>PHYSTOP - HEAP_SIZE\<close> is a non-null multiple of 16, the size is a multiple of 16 that
  holds a header and fits the 32-bit field, and the heap does not wrap around the
  address space.\<close>

definition valid_region :: "addr \<Rightarrow> addr \<Rightarrow> bool" where
  "valid_region PHYSTOP HEAP_SIZE \<longleftrightarrow>
     PHYSTOP - HEAP_SIZE \<noteq> 0 \<and> aligned16 (PHYSTOP - HEAP_SIZE) \<and> aligned16 HEAP_SIZE \<and>
     16 \<le> unat HEAP_SIZE \<and> unat HEAP_SIZE < 2 ^ 32 \<and>
     unat (PHYSTOP - HEAP_SIZE) + unat HEAP_SIZE < 2 ^ 64"

text \<open>The freshly initialised heap with its only block marked used.\<close>

definition whole_heap_taken :: "addr \<Rightarrow> addr \<Rightarrow> dmem \<Rightarrow> dmem" where
  "whole_heap_taken PHYSTOP HEAP_SIZE s0 =
     (dinit PHYSTOP HEAP_SIZE s0)\<lparr>mem := (mem (dinit PHYSTOP HEAP_SIZE s0))
        (PHYSTOP - HEAP_SIZE := \<lparr>data_size = ucast (HEAP_SIZE - 16), used = 1, nxt = 0\<rparr>)\<rparr>"

text \<open>Alignment as an invariant of arbitrary memories: a set of header addresses
  that is closed under \<open>next\<close> and holds aligned addresses and sizes only. It needs
  no null-terminated chain, so it also speaks about cyclic sequences.\<close>

definition closed_aligned :: "addr set \<Rightarrow> memory \<Rightarrow> bool" where
  "closed_aligned A m \<longleftrightarrow>
     (\<forall>a \<in> A. aligned16 a \<and> aligned16 (data_size (m a)) \<and> (nxt (m a) = 0 \<or> nxt (m a) \<in> A))"

definition aligned_heap :: "dmem \<Rightarrow> bool" where
  "aligned_heap s \<longleftrightarrow> (\<exists>A. (start s = 0 \<or> start s \<in> A) \<and> closed_aligned A (mem s))"

text \<open>The states the kernel can be in: after \<open>dinit\<close>, and after every call of \<open>dalloc\<close>
  and \<open>dfree\<close> that returns.\<close>

inductive reachable :: "addr \<Rightarrow> addr \<Rightarrow> dmem \<Rightarrow> bool" for PHYSTOP HEAP_SIZE :: addr where
  init: "reachable PHYSTOP HEAP_SIZE (dinit PHYSTOP HEAP_SIZE s0)"
| alloc: "reachable PHYSTOP HEAP_SIZE s \<Longrightarrow> dalloc s sz = Some (s', p) \<Longrightarrow>
          reachable PHYSTOP HEAP_SIZE s'"
| free: "reachable PHYSTOP HEAP_SIZE s \<Longrightarrow> dfree s p = Some (s', None) \<Longrightarrow>
         reachable PHYSTOP HEAP_SIZE s'"

text \<open>The same states, with every request such that the 32-bit \<open>required_size\<close> is
  not 0 (it is 0 exactly for the sizes from \<open>2 ^ 32 - 31\<close> to \<open>2 ^ 32 - 16\<close>).\<close>

inductive reachable_nowrap :: "addr \<Rightarrow> addr \<Rightarrow> dmem \<Rightarrow> bool" for PHYSTOP HEAP_SIZE :: addr where
  init: "reachable_nowrap PHYSTOP HEAP_SIZE (dinit PHYSTOP HEAP_SIZE s0)"
| alloc: "reachable_nowrap PHYSTOP HEAP_SIZE s \<Longrightarrow> required_size sz \<noteq> 0 \<Longrightarrow>
          dalloc s sz = Some (s', p) \<Longrightarrow> reachable_nowrap PHYSTOP HEAP_SIZE s'"
| free: "reachable_nowrap PHYSTOP HEAP_SIZE s \<Longrightarrow> dfree s p = Some (s', None) \<Longrightarrow>
         reachable_nowrap PHYSTOP HEAP_SIZE s'"

text \<open>The block list after a split of block \<open>c\<close>: the new block \<open>nb\<close> follows \<open>c\<close>.\<close>

fun insert_after :: "addr \<Rightarrow> addr \<Rightarrow> addr list \<Rightarrow> addr list" where
  "insert_after c nb [] = []"
| "insert_after c nb (b # bs) = (if b = c then b # nb # bs else b # insert_after c nb bs)"

text \<open>A run of successful calls of \<open>dalloc\<close> that collects the pointers, and a run
  of calls of \<open>dfree\<close> that all return.\<close>

fun alloc_all :: "dmem \<Rightarrow> uint list \<Rightarrow> (dmem \<times> addr list) option" where
  "alloc_all s [] = Some (s, [])"
| "alloc_all s (sz # szs) =
     (case dalloc s sz of
        None \<Rightarrow> None
      | Some (s1, p) \<Rightarrow>
          if p = 0 then None
          else (case alloc_all s1 szs of
                  None \<Rightarrow> None
                | Some (s2, ps) \<Rightarrow> Some (s2, p # ps)))"

fun free_all :: "dmem \<Rightarrow> addr list \<Rightarrow> dmem option" where
  "free_all s [] = Some s"
| "free_all s (q # qs) =
     (case dfree s q of
        Some (s1, None) \<Rightarrow> free_all s1 qs
      | _ \<Rightarrow> None)"

text \<open>A well-formed heap without free neighbours, whose used blocks are exactly the
  headers \<open>U\<close>.\<close>

definition tidy :: "addr \<Rightarrow> nat \<Rightarrow> dmem \<Rightarrow> addr set \<Rightarrow> bool" where
  "tidy base ext s U \<longleftrightarrow>
     (\<exists>as. heap_inv base ext s as \<and> coalesced (mem s) as \<and>
           U = {a \<in> set as. used (mem s a) \<noteq> 0})"

text \<open>The specification's \<open>round_up\<close> and its \<open>required_size\<close>, on unbounded naturals.\<close>

definition spec_round_up :: "nat \<Rightarrow> nat \<Rightarrow> nat" where
  "spec_round_up n k = ((n + k - 1) div k) * k"

definition spec_required_size :: "nat \<Rightarrow> nat" where
  "spec_required_size requested_size = spec_round_up (requested_size + 16) 16"

text \<open>The specification's fit test, \<open>!used && data_size >= required_size\<close>, with its own
  \<open>required_size\<close>.\<close>

definition spec_fits :: "memory \<Rightarrow> nat \<Rightarrow> addr \<Rightarrow> bool" where
  "spec_fits m requested_size a \<longleftrightarrow>
     used (m a) = 0 \<and> spec_required_size requested_size \<le> unat (data_size (m a))"

text \<open>A memory of zeroed headers before \<open>dinit\<close>, for running the code on concrete
  inputs.\<close>

definition boot :: dmem where
  "boot = \<lparr>start = 0, mem = (\<lambda>_. \<lparr>data_size = 0, used = 0, nxt = 0\<rparr>)\<rparr>"

text \<open>Two concrete heaps of 1 MiB below \<open>0x88000000\<close>: the one \<open>dinit\<close> leaves, and
  the one left by \<open>dalloc(100)\<close>, \<open>dalloc(16)\<close>, \<open>dalloc(16)\<close> and the \<open>dfree\<close> of the
  second block.\<close>

definition fresh_heap :: dmem where
  "fresh_heap = dinit 0x88000000 0x100000 boot"

definition demo_heap :: dmem where
  "demo_heap =
     \<lparr>start = 0x87F00000,
      mem = (\<lambda>_. \<lparr>data_size = 0, used = 0, nxt = 0\<rparr>)
        (0x87F00000 := \<lparr>data_size = 112, used = 1, nxt = 0x87F00080\<rparr>,
         0x87F00080 := \<lparr>data_size = 16, used = 0, nxt = 0x87F000A0\<rparr>,
         0x87F000A0 := \<lparr>data_size = 16, used = 1, nxt = 0x87F000C0\<rparr>,
         0x87F000C0 := \<lparr>data_size = 1048368, used = 0, nxt = 0\<rparr>)\<rparr>"

definition demo_blocks :: "addr list" where
  "demo_blocks = [0x87F00000, 0x87F00080, 0x87F000A0, 0x87F000C0]"

definition demo_after :: dmem where
  "demo_after =
     \<lparr>start = 0x87F00000,
      mem = (\<lambda>_. \<lparr>data_size = 0, used = 0, nxt = 0\<rparr>)
        (0x87F00000 := \<lparr>data_size = 112, used = 1, nxt = 0x87F00080\<rparr>,
         0x87F00080 := \<lparr>data_size = 16, used = 0, nxt = 0x87F000A0\<rparr>,
         0x87F000A0 := \<lparr>data_size = 16, used = 1, nxt = 0x87F000C0\<rparr>,
         0x87F00140 := \<lparr>data_size = 1048240, used = 0, nxt = 0\<rparr>,
         0x87F000C0 := \<lparr>data_size = 112, used = 1, nxt = 0x87F00140\<rparr>)\<rparr>"

text \<open>The second concrete heap after \<open>dfree\<close> of its first block.\<close>

definition demo_freed :: dmem where
  "demo_freed =
     \<lparr>start = 0x87F00000,
      mem = (\<lambda>_. \<lparr>data_size = 0, used = 0, nxt = 0\<rparr>)
        (0x87F00000 := \<lparr>data_size = 144, used = 0, nxt = 0x87F000A0\<rparr>,
         0x87F00080 := \<lparr>data_size = 16, used = 0, nxt = 0x87F000A0\<rparr>,
         0x87F000A0 := \<lparr>data_size = 16, used = 1, nxt = 0x87F000C0\<rparr>,
         0x87F000C0 := \<lparr>data_size = 1048368, used = 0, nxt = 0\<rparr>)\<rparr>"

text \<open>The fresh heap after \<open>dalloc(0xFFFFFFF0)\<close>.\<close>

definition wrapped_heap :: dmem where
  "wrapped_heap =
     \<lparr>start = 0x87F00000,
      mem = (\<lambda>_. \<lparr>data_size = 0, used = 0, nxt = 0\<rparr>)
        (0x87F00000 := \<lparr>data_size = 0xFFFFFFF0, used = 1, nxt = 0x87F00000\<rparr>)\<rparr>"

lemmas loops = dalloc_loop.simps coalesce_loop.simps dfree_loop.simps

lemmas eval_defs =
  dalloc_def dinit_def boot_def required_size_def HEADER_SIZE_def ALIGNMENT_SIZE_def Let_def
  take_block_def split_block_def dfree_def coalesce_blocks_def fresh_heap_def

section \<open>Machine arithmetic\<close>

lemma and_not_15: "(w::'a::len word) AND NOT 15 = w - take_bit 4 w"
proof -
  have m: "(15::'a word) = mask 4" by (simp add: mask_eq_exp_minus_1)
  have "w - take_bit 4 w = w AND NOT (take_bit 4 w)"
    by (rule disjunctive_diff) (simp add: bit_simps)
  also have "\<dots> = w AND NOT 15"
    unfolding m by (rule bit_word_eqI) (auto simp add: bit_simps)
  finally show ?thesis by simp
qed

lemma unat_take_bit4: "unat (take_bit 4 (w::'a::len word)) = unat w mod 16"
proof -
  have "unat (take_bit 4 w) = take_bit 4 (unat w)" by (rule unsigned_take_bit_eq)
  also have "\<dots> = unat w mod 2 ^ 4" by (rule take_bit_eq_mod)
  finally show ?thesis by simp
qed

lemma unat_and_not_15: "unat ((w::'a::len word) AND NOT 15) = (unat w div 16) * 16"
proof -
  have "unat (take_bit 4 w) \<le> unat w" unfolding unat_take_bit4 by simp
  then have le: "take_bit 4 w \<le> w" by (simp only: word_le_nat_alt)
  have "unat (w - take_bit 4 w) = unat w - unat (take_bit 4 w)"
    using le by (rule unat_sub)
  then show ?thesis
    unfolding and_not_15 unat_take_bit4 by (simp add: minus_mod_eq_div_mult)
qed

lemma aligned16_take_bit: "aligned16 w \<longleftrightarrow> take_bit 4 w = 0"
proof -
  have "take_bit 4 w = 0 \<longleftrightarrow> unat (take_bit 4 w) = 0" by (simp only: unat_eq_0)
  then show ?thesis by (simp only: aligned16_def unat_take_bit4)
qed

lemma aligned16_dvd: "aligned16 w \<longleftrightarrow> 16 dvd unat w"
  by (simp add: aligned16_def dvd_eq_mod_eq_0)

lemma aligned16_add32: "aligned16 x \<Longrightarrow> aligned16 y \<Longrightarrow> aligned16 (x + y :: uint)"
  unfolding aligned16_dvd unat_word_ariths
  by (rule dvd_mod) simp_all

lemma aligned16_add64: "aligned16 x \<Longrightarrow> aligned16 y \<Longrightarrow> aligned16 (x + y :: addr)"
  unfolding aligned16_dvd unat_word_ariths
  by (rule dvd_mod) simp_all

lemma aligned16_diff32: "aligned16 x \<Longrightarrow> aligned16 y \<Longrightarrow> aligned16 (x - y :: uint)"
  unfolding aligned16_dvd unat_sub_if'
  by auto

lemma aligned16_diff64: "aligned16 x \<Longrightarrow> aligned16 y \<Longrightarrow> aligned16 (x - y :: addr)"
  unfolding aligned16_dvd unat_sub_if'
  by auto

lemma aligned16_and_not_15: "aligned16 (x AND NOT 15)"
  unfolding aligned16_take_bit by (rule bit_word_eqI) (auto simp add: bit_simps)

lemma aligned16_16: "aligned16 (16 :: 'a::len word)"
  unfolding aligned16_take_bit by (rule bit_word_eqI) (auto simp add: bit_simps)

lemma aligned16_0: "aligned16 (0 :: 'a::len word)"
  by (simp add: aligned16_def)

lemma aligned16_ucast_up: "aligned16 (x::uint) \<Longrightarrow> aligned16 (ucast x :: addr)"
  unfolding aligned16_take_bit by (simp add: bit_eq_iff bit_simps)

lemma aligned16_ucast_down: "aligned16 (x::addr) \<Longrightarrow> aligned16 (ucast x :: uint)"
  unfolding aligned16_take_bit by (simp add: bit_eq_iff bit_simps)

lemma aligned16_mod: "aligned16 (x::addr) \<longleftrightarrow> x mod 16 = 0"
  unfolding aligned16_take_bit by (simp add: take_bit_eq_mod)

lemma required_size_eq: "required_size sz = (sz + 16 + 15) AND NOT 15"
  by (simp add: required_size_def HEADER_SIZE_def ALIGNMENT_SIZE_def)

lemma take_bit4_add16: "take_bit 4 (w + 16 :: uint) = take_bit 4 w"
proof -
  have "unat (take_bit 4 (w + 16)) = unat (take_bit 4 w)"
    unfolding unat_take_bit4 unat_word_ariths
    by (simp add: mod_mod_cancel)
  then show ?thesis by (simp only: word_unat_eq_iff)
qed

text \<open>The fit test asks for the size the block keeps after a split, plus one header.\<close>

lemma required_size_alt: "required_size sz = ((sz + 15) AND NOT 15) + 16"
proof -
  have "sz + 16 + 15 = sz + 15 + 16" by simp
  then show ?thesis
    unfolding required_size_eq and_not_15 by (simp only: take_bit4_add16) simp
qed

lemma aligned16_required_size: "aligned16 (required_size sz)"
  unfolding required_size_eq by (rule aligned16_and_not_15)

lemma unat_required_size:
  "unat (required_size sz) = ((unat sz + 31) mod 2 ^ 32 div 16) * 16"
proof -
  have "unat (sz + 16 + 15) = (unat sz + 31) mod 2 ^ 32"
    by (simp add: unat_word_ariths add.assoc mod_simps)
  then show ?thesis
    unfolding required_size_eq unat_and_not_15 by simp
qed

text \<open>The 32-bit requirement is the exact one precisely for the requests up to
  \<open>2 ^ 32 - 32\<close>.\<close>

lemma required_size_exact_iff:
  "unat (required_size sz) = spec_required_size (unat sz) \<longleftrightarrow> unat sz + 31 < 2 ^ 32"
proof (cases "unat sz + 31 < 2 ^ 32")
  case True
  then show ?thesis
    by (simp add: unat_required_size spec_required_size_def spec_round_up_def)
next
  case False
  have "unat (required_size sz) < 2 ^ 32"
    using unsigned_less [of "required_size sz"] by simp
  moreover have "2 ^ 32 \<le> spec_required_size (unat sz)"
  proof -
    have "(2::nat) ^ 32 = ((2 ^ 32) div 16) * 16" by simp
    also have "\<dots> \<le> ((unat sz + 31) div 16) * 16"
      using False by (intro mult_le_mono1 div_le_mono) simp
    finally show ?thesis by (simp add: spec_required_size_def spec_round_up_def)
  qed
  ultimately show ?thesis using False by simp
qed

text \<open>The 32-bit requirement is 0 for sixteen sizes.\<close>

lemma required_size_zero_iff:
  "required_size sz = 0 \<longleftrightarrow> 2 ^ 32 - 31 \<le> unat sz \<and> unat sz \<le> 2 ^ 32 - 16"
proof -
  have b: "unat sz < 4294967296" using unsigned_less [of sz] by simp
  have "required_size sz = 0 \<longleftrightarrow> unat (required_size sz) = 0" by (simp add: unat_eq_0)
  also have "\<dots> \<longleftrightarrow> (unat sz + 31) mod 4294967296 < 16"
    by (simp add: unat_required_size div_eq_0_iff)
  also have "\<dots> \<longleftrightarrow> 4294967265 \<le> unat sz \<and> unat sz \<le> 4294967280"
  proof (cases "unat sz + 31 < 4294967296")
    case True
    then show ?thesis by simp
  next
    case False
    with b have "(unat sz + 31) mod 4294967296 = unat sz + 31 - 4294967296"
      by (simp add: mod_if)
    with False show ?thesis by auto
  qed
  finally show ?thesis by simp
qed

text \<open>
  C9. The claim: for every requested size, the requirement used by the fit test is the
  exact value of \<open>round_up (requested_size + header_size) 16\<close>. The code computes it in
  32-bit arithmetic, and at the request \<open>0xFFFFFFF0\<close> the sum wraps: the code's
  requirement is 0, the exact one is \<open>2 ^ 32\<close>.
\<close>

theorem required_size_wraps:
  "required_size 0xFFFFFFF0 = 0 \<and> spec_required_size (unat (0xFFFFFFF0 :: uint)) = 2 ^ 32"
  by (simp add: required_size_def HEADER_SIZE_def ALIGNMENT_SIZE_def
      spec_required_size_def spec_round_up_def)

section \<open>Chains and layouts\<close>

lemma chain_frame:
  "(\<And>a. a \<in> set as \<Longrightarrow> nxt (m' a) = nxt (m a)) \<Longrightarrow> chain m' p as = chain m p as"
  by (induction as arbitrary: p) auto

lemma laid_out_frame:
  "(\<And>a. a \<in> set as \<Longrightarrow> data_size (m' a) = data_size (m a)) \<Longrightarrow>
   laid_out m' lo as hi = laid_out m lo as hi"
  by (induction as arbitrary: lo) auto

lemma laid_out_le: "laid_out m lo as hi \<Longrightarrow> lo \<le> hi"
  by (induction as arbitrary: lo) fastforce+

lemma laid_out_bounds:
  "laid_out m lo as hi \<Longrightarrow> a \<in> set as \<Longrightarrow>
   lo \<le> unat a \<and> unat a + 16 + unat (data_size (m a)) \<le> hi"
proof (induction as arbitrary: lo)
  case Nil
  then show ?case by simp
next
  case (Cons b bs)
  show ?case
  proof (cases "a = b")
    case True
    with Cons.prems laid_out_le [of m "lo + 16 + unat (data_size (m b))" bs hi]
    show ?thesis by simp
  next
    case False
    with Cons.prems Cons.IH [of "lo + 16 + unat (data_size (m b))"]
    show ?thesis by simp
  qed
qed

lemma laid_out_ascending: "laid_out m lo as hi \<Longrightarrow> sorted_wrt (<) as"
proof (induction as arbitrary: lo)
  case Nil
  then show ?case by simp
next
  case (Cons b bs)
  have "b < a" if "a \<in> set bs" for a
    using laid_out_bounds [of m "lo + 16 + unat (data_size (m b))" bs hi a] Cons.prems that
    by (simp add: word_less_nat_alt)
  moreover have "sorted_wrt (<) bs"
    using Cons.IH [of "lo + 16 + unat (data_size (m b))"] Cons.prems by simp
  ultimately show ?case by simp
qed

lemma laid_out_distinct: "laid_out m lo as hi \<Longrightarrow> distinct as"
  using laid_out_ascending [of m lo as hi] strict_sorted_iff [of as] by simp

lemma laid_out_capacity: "laid_out m lo as hi \<Longrightarrow> lo + capacity m as = hi"
proof (induction as arbitrary: lo)
  case Nil
  then show ?case by (simp add: capacity_def)
next
  case (Cons b bs)
  from Cons.prems have "lo + 16 + unat (data_size (m b)) + capacity m bs = hi"
    by (intro Cons.IH) simp
  then show ?case by (simp add: capacity_def)
qed

lemma fits_fun: "fits m r = (\<lambda>a. used (m a) = 0 \<and> r \<le> data_size (m a))"
  by (rule ext) (simp add: fits_def)


lemma blocks_chain: "chain m p as \<Longrightarrow> blocks m p = set as"
proof
  assume c: "chain m p as"
  show "blocks m p \<subseteq> set as"
  proof
    fix a assume "a \<in> blocks m p"
    then show "a \<in> set as"
    proof induction
      case first
      with c show ?case by (cases as) auto
    next
      case (step a)
      have "chain m q bs \<Longrightarrow> a \<in> set bs \<Longrightarrow> nxt (m a) \<noteq> 0 \<Longrightarrow> nxt (m a) \<in> set bs" for q bs
      proof (induction bs arbitrary: q)
        case Nil
        then show ?case by simp
      next
        case (Cons b bs)
        then show ?case by (cases bs) auto
      qed
      with c step show ?case by blast
    qed
  qed
  show "set as \<subseteq> blocks m p"
  proof -
    have "chain m q bs \<Longrightarrow> q = 0 \<or> q \<in> blocks m p \<Longrightarrow> set bs \<subseteq> blocks m p" for q bs
    proof (induction bs arbitrary: q)
      case Nil
      then show ?case by simp
    next
      case (Cons b bs)
      from Cons.prems have b: "b \<in> blocks m p" by auto
      then have "nxt (m b) = 0 \<or> nxt (m b) \<in> blocks m p"
        by (auto intro: blocks.step)
      with Cons.IH [of "nxt (m b)"] Cons.prems b show ?case by simp
    qed
    from this [OF c] show ?thesis
      by (cases "p = 0") (auto intro: blocks.first)
  qed
qed

lemma dalloc_loop_chain:
  "chain m p as \<Longrightarrow>
   dalloc_loop sz r m p =
     Some (case find (fits m r) as of
             None \<Rightarrow> (m, 0)
           | Some c \<Rightarrow> (take_block sz r m c, c + 16))"
proof (induction as arbitrary: p)
  case Nil
  then show ?case by (simp add: dalloc_loop.simps)
next
  case (Cons a as)
  then show ?case
    by (subst dalloc_loop.simps) (simp add: fits_fun)
qed

section \<open>\<open>dalloc\<close> on a well-formed heap\<close>

lemma find_first:
  "find P xs = Some c \<Longrightarrow> sorted_wrt (<) (xs :: 'a::order list) \<Longrightarrow>
   c \<in> set xs \<and> P c \<and> (\<forall>b\<in>set xs. b < c \<longrightarrow> \<not> P b)"
proof (induction xs)
  case Nil
  then show ?case by simp
next
  case (Cons x xs)
  show ?case
  proof (cases "P x")
    case True
    with Cons.prems show ?thesis by auto
  next
    case False
    with Cons.prems Cons.IH show ?thesis by auto
  qed
qed

lemma take_block_used: "used (take_block sz r m c c) = 1"
  by (simp add: take_block_def Let_def)

lemma dalloc_result:
  assumes "heap_inv base ext s as"
  shows "dalloc s sz =
     Some (case find (fits (mem s) (required_size sz)) as of
             None \<Rightarrow> (s, 0)
           | Some c \<Rightarrow> (s\<lparr>mem := take_block sz (required_size sz) (mem s) c\<rparr>, c + 16))"
proof -
  from assms have "chain (mem s) (start s) as" by (simp add: heap_inv_def)
  then show ?thesis
    by (simp add: dalloc_def dalloc_loop_chain split: option.split)
qed

lemma block_payload_address:
  assumes "heap_inv base ext s as" and "c \<in> set as"
  shows "unat (c + 16) = unat c + 16" and "c + 16 \<noteq> 0"
proof -
  from assms have "unat c + 16 + unat (data_size (mem s c)) \<le> unat base + ext"
    using laid_out_bounds [of "mem s" "unat base" as "unat base + ext" c]
    by (simp add: heap_inv_def)
  moreover from assms have "unat base + ext < 2 ^ 64" by (simp add: heap_inv_def)
  ultimately have "unat c + unat (16 :: addr) < 2 ^ LENGTH(64)" by simp
  then have "unat (c + 16) = unat c + unat (16 :: addr)" by (simp only: unat_add_lem)
  then show "unat (c + 16) = unat c + 16" by simp
  then show "c + 16 \<noteq> 0" by (metis add_is_0 unat_0 zero_neq_numeral)
qed

lemma block_data_size_bound:
  assumes "heap_inv base ext s as" and "a \<in> set as"
  shows "unat (data_size (mem s a)) + 16 \<le> ext"
  using laid_out_bounds [of "mem s" "unat base" as "unat base + ext" a] assms
  by (simp add: heap_inv_def)

lemma required_size_extent:
  assumes "ext + 31 < 2 ^ 32"
  shows "ext + 16 \<le> unat (required_size (of_nat ext))"
proof -
  have "unat (of_nat ext :: uint) = ext"
    using assms by (simp add: unat_of_nat)
  then have "unat (required_size (of_nat ext)) = ((ext + 31) div 16) * 16"
    using assms by (simp add: unat_required_size)
  then show ?thesis by presburger
qed

lemma dalloc_selected:
  assumes "heap_inv base ext s as" and "dalloc s sz = Some (s', p)" and "p \<noteq> 0"
  shows "\<exists>c \<in> set as. fits (mem s) (required_size sz) c \<and> p = c + 16 \<and>
           s' = s\<lparr>mem := take_block sz (required_size sz) (mem s) c\<rparr>"
proof (cases "find (fits (mem s) (required_size sz)) as")
  case None
  with assms dalloc_result [OF assms(1), of sz] show ?thesis by simp
next
  case (Some c)
  then have "c \<in> set as" "fits (mem s) (required_size sz) c"
    by (auto simp add: find_Some_iff)
  with Some assms(2) dalloc_result [OF assms(1), of sz] show ?thesis by auto
qed

text \<open>The two concrete heaps: the second one is reached from the first, it is well
  formed, and \<open>dalloc(100)\<close> takes its last block.\<close>

lemma demo_heap_reached:
  "Option.bind (dalloc fresh_heap 100) (\<lambda>(s1, p).
     Option.bind (dalloc s1 16) (\<lambda>(s2, q).
       Option.bind (dalloc s2 16) (\<lambda>(s3, r). dfree s3 q))) = Some (demo_heap, None)"
  by (simp add: eval_defs loops demo_heap_def fun_eq_iff)

lemma demo_inv: "heap_inv 0x87F00000 0x100000 demo_heap demo_blocks"
  by (simp add: heap_inv_def demo_heap_def demo_blocks_def aligned16_def)

lemma demo_dalloc: "dalloc demo_heap 100 = Some (demo_after, 0x87F000D0)"
  by (simp add: eval_defs loops demo_heap_def demo_after_def fun_eq_iff)

text \<open>
  First fit with the requirement of lines 70 to 73: on a well-formed heap, when
  \<open>dalloc\<close> returns a pointer, the block it marks used is a block of the sequence that
  passes the fit test of line 82, no block at a lower address passes it, and the
  pointer is the address 16 bytes after the block's header (without wrap-around).
\<close>

lemma dalloc_first_fit:
  assumes "heap_inv base ext s as" and "dalloc s sz = Some (s', p)" and "p \<noteq> 0"
  shows "\<exists>c \<in> set as. fits (mem s) (required_size sz) c \<and>
           (\<forall>b \<in> set as. b < c \<longrightarrow> \<not> fits (mem s) (required_size sz) b) \<and>
           used (mem s' c) = 1 \<and> p = c + 16 \<and> unat p = unat c + 16"
proof (cases "find (fits (mem s) (required_size sz)) as")
  case None
  with assms dalloc_result [OF assms(1), of sz] show ?thesis by simp
next
  case (Some c)
  from assms(1) have "sorted_wrt (<) as"
    using laid_out_ascending by (auto simp add: heap_inv_def)
  with Some have c: "c \<in> set as" "fits (mem s) (required_size sz) c"
    "\<forall>b\<in>set as. b < c \<longrightarrow> \<not> fits (mem s) (required_size sz) b"
    using find_first [of "fits (mem s) (required_size sz)" as c] by auto
  from Some assms(2) dalloc_result [OF assms(1), of sz]
  have "s' = s\<lparr>mem := take_block sz (required_size sz) (mem s) c\<rparr>" "p = c + 16" by auto
  with c block_payload_address [OF assms(1) c(1)] show ?thesis
    by (auto simp add: take_block_used)
qed

lemma dalloc_first_fit_demo:
  "heap_inv 0x87F00000 0x100000 demo_heap demo_blocks \<and>
   dalloc demo_heap 100 = Some (demo_after, 0x87F000D0) \<and>
   fits (mem demo_heap) (required_size 100) 0x87F000C0 \<and>
   \<not> fits (mem demo_heap) (required_size 100) 0x87F00080 \<and>
   \<not> fits (mem demo_heap) (required_size 100) 0x87F00000 \<and>
   used (mem demo_after 0x87F000C0) = 1"
proof -
  have p: "(0x87F000D0 :: addr) \<noteq> 0" by simp
  from dalloc_first_fit [OF demo_inv demo_dalloc p]
  obtain c where c: "fits (mem demo_heap) (required_size 100) c"
    "\<forall>b \<in> set demo_blocks. b < c \<longrightarrow> \<not> fits (mem demo_heap) (required_size 100) b"
    "used (mem demo_after c) = 1" "0x87F000D0 = c + 16"
    by blast
  from c(4) have "c = 0x87F000D0 - 16" by simp
  then have "c = 0x87F000C0" by simp
  with c demo_inv demo_dalloc show ?thesis by (simp add: demo_blocks_def)
qed



text \<open>
  With the requirement of lines 70 to 73: on a well-formed heap \<open>dalloc\<close> returns, and
  it returns the null pointer exactly when no block of the sequence passes the fit test
  of line 82; a call that returns the null pointer leaves the state as it was. A
  request of the whole extent returns the null pointer when the extent is below
  \<open>2 ^ 32 - 31\<close>.
\<close>

lemma dalloc_none_iff:
  assumes "heap_inv base ext s as"
  shows "(\<exists>s' p. dalloc s sz = Some (s', p) \<and>
            (p = 0 \<longleftrightarrow> (\<forall>a \<in> set as. \<not> fits (mem s) (required_size sz) a)) \<and>
            (p = 0 \<longrightarrow> s' = s)) \<and>
         (ext + 31 < 2 ^ 32 \<longrightarrow> dalloc s (of_nat ext) = Some (s, 0))"
proof
  show "\<exists>s' p. dalloc s sz = Some (s', p) \<and>
            (p = 0 \<longleftrightarrow> (\<forall>a \<in> set as. \<not> fits (mem s) (required_size sz) a)) \<and>
            (p = 0 \<longrightarrow> s' = s)"
  proof (cases "find (fits (mem s) (required_size sz)) as")
    case None
    then have "\<forall>a \<in> set as. \<not> fits (mem s) (required_size sz) a"
      by (simp add: find_None_iff)
    with None dalloc_result [OF assms, of sz] show ?thesis by simp
  next
    case (Some c)
    then have c: "c \<in> set as" "fits (mem s) (required_size sz) c"
      by (auto simp add: find_Some_iff)
    with Some dalloc_result [OF assms, of sz] block_payload_address(2) [OF assms c(1)]
    show ?thesis by auto
  qed
  show "ext + 31 < 2 ^ 32 \<longrightarrow> dalloc s (of_nat ext) = Some (s, 0)"
  proof
    assume e: "ext + 31 < 2 ^ 32"
    have "\<not> fits (mem s) (required_size (of_nat ext)) a" if "a \<in> set as" for a
      using block_data_size_bound [OF assms that] required_size_extent [OF e]
      by (simp add: fits_def word_le_nat_alt)
    then have "find (fits (mem s) (required_size (of_nat ext))) as = None"
      by (simp add: find_None_iff)
    with dalloc_result [OF assms, of "of_nat ext"] show "dalloc s (of_nat ext) = Some (s, 0)"
      by simp
  qed
qed

lemma dalloc_none_iff_demo:
  "heap_inv 0x87F00000 0x100000 demo_heap demo_blocks \<and>
   (1048576 :: nat) + 31 < 2 ^ 32 \<and>
   dalloc demo_heap 0x100000 = Some (demo_heap, 0) \<and>
   dalloc demo_heap 100 = Some (demo_after, 0x87F000D0) \<and>
   fits (mem demo_heap) (required_size 100) 0x87F000C0"
proof -
  have e: "(1048576 :: nat) + 31 < 2 ^ 32" by simp
  from dalloc_none_iff [OF demo_inv, of 100] e
  have "dalloc demo_heap (of_nat 1048576) = Some (demo_heap, 0)" by blast
  then have "dalloc demo_heap 0x100000 = Some (demo_heap, 0)" by simp
  moreover have "fits (mem demo_heap) (required_size 100) 0x87F000C0"
    by (simp add: fits_def demo_heap_def required_size_eq)
  ultimately show ?thesis using demo_inv demo_dalloc by simp
qed

text \<open>For the requests up to \<open>2 ^ 32 - 32\<close> the fit test of the code is the one of the
  specification, and first fit and the null result hold as the specification words
  them.\<close>

lemma fits_spec_fits:
  "unat sz + 31 < 2 ^ 32 \<Longrightarrow> fits m (required_size sz) a = spec_fits m (unat sz) a"
  using required_size_exact_iff [of sz]
  by (simp add: fits_def spec_fits_def word_le_nat_alt)

lemma dalloc_first_fit_exact:
  assumes "heap_inv base ext s as" and "dalloc s sz = Some (s', p)" and "p \<noteq> 0"
    and "unat sz + 31 < 2 ^ 32"
  shows "\<exists>c \<in> set as. spec_fits (mem s) (unat sz) c \<and>
           (\<forall>b \<in> set as. b < c \<longrightarrow> \<not> spec_fits (mem s) (unat sz) b) \<and>
           used (mem s' c) = 1 \<and> p = c + 16 \<and> unat p = unat c + 16"
  using dalloc_first_fit [OF assms(1-3)] by (simp add: fits_spec_fits [OF assms(4)])

lemma dalloc_none_iff_exact:
  assumes "heap_inv base ext s as" and "unat sz + 31 < 2 ^ 32"
  shows "\<exists>s' p. dalloc s sz = Some (s', p) \<and>
           (p = 0 \<longleftrightarrow> (\<forall>a \<in> set as. \<not> spec_fits (mem s) (unat sz) a)) \<and>
           (p = 0 \<longrightarrow> s' = s)"
proof -
  from dalloc_none_iff [OF assms(1), of sz]
  have "\<exists>s' p. dalloc s sz = Some (s', p) \<and>
            (p = 0 \<longleftrightarrow> (\<forall>a \<in> set as. \<not> fits (mem s) (required_size sz) a)) \<and>
            (p = 0 \<longrightarrow> s' = s)"
    by (rule conjunct1)
  then show ?thesis by (simp add: fits_spec_fits [OF assms(2)])
qed

section \<open>\<open>coalesce_blocks\<close> on a well-formed heap\<close>

lemma chain_upd: "a \<notin> set as \<Longrightarrow> chain (m(a := v)) p as = chain m p as"
  by (rule chain_frame) auto

lemma laid_out_upd: "a \<notin> set as \<Longrightarrow> laid_out (m(a := v)) lo as hi = laid_out m lo as hi"
  by (rule laid_out_frame) auto

lemma chain_nonempty: "chain m p as \<Longrightarrow> p \<noteq> 0 \<Longrightarrow> \<exists>bs. as = p # bs"
  by (cases as) auto

lemma coalesce_loop_stop:
  "cur = 0 \<or> nxt (m cur) = 0 \<Longrightarrow> coalesce_loop m cur = Some m"
  by (subst coalesce_loop.simps) auto

lemma coalesce_loop_advance:
  "cur \<noteq> 0 \<Longrightarrow> nxt (m cur) \<noteq> 0 \<Longrightarrow> \<not> (used (m cur) = 0 \<and> used (m (nxt (m cur))) = 0) \<Longrightarrow>
   coalesce_loop m cur = coalesce_loop m (nxt (m cur))"
  by (subst coalesce_loop.simps) auto

lemma coalesce_loop_absorb:
  "cur \<noteq> 0 \<Longrightarrow> nxt (m cur) \<noteq> 0 \<Longrightarrow> nxt (m cur) \<noteq> cur \<Longrightarrow>
   used (m cur) = 0 \<Longrightarrow> used (m (nxt (m cur))) = 0 \<Longrightarrow>
   coalesce_loop m cur =
     coalesce_loop
       (m(cur := (m cur)\<lparr>data_size := data_size (m cur) + (data_size (m (nxt (m cur))) + 16),
                          nxt := nxt (m (nxt (m cur)))\<rparr>)) cur"
  by (subst coalesce_loop.simps) (simp add: Let_def HEADER_SIZE_def)

lemma coalesce_loop_chain:
  assumes "chain m p as" and "laid_out m lo as hi" and "hi < lo + 2 ^ 32"
    and "list_all (\<lambda>a. aligned16 (data_size (m a))) as"
  shows "\<exists>m' as'. coalesce_loop m p = Some m' \<and> chain m' p as' \<and> laid_out m' lo as' hi \<and>
           coalesced m' as' \<and> list_all (\<lambda>a. aligned16 (data_size (m' a))) as' \<and>
           coalesce_post m as m' as'"
  using assms
proof (induction "length as" arbitrary: as m p lo rule: less_induct)
  case less
  show ?case
  proof (cases as)
    case Nil
    with less.prems have "coalesce_loop m p = Some m" by (simp add: coalesce_loop_stop)
    with Nil less.prems show ?thesis
      by (intro exI [of _ m] exI [of _ "[]"]) (simp add: coalesce_post_def)
  next
    case as: (Cons a bs)
    with less.prems have a: "p = a" "a \<noteq> 0" "chain m (nxt (m a)) bs" "unat a = lo"
      "laid_out m (lo + 16 + unat (data_size (m a))) bs hi"
      by simp_all
    show ?thesis
    proof (cases bs)
      case Nil
      with a have "coalesce_loop m p = Some m" by (simp add: coalesce_loop_stop)
      with Nil as less.prems show ?thesis
        by (intro exI [of _ m] exI [of _ "[a]"]) (simp add: coalesce_post_def)
    next
      case bs: (Cons b cs)
      with a have b: "nxt (m a) = b" "b \<noteq> 0" "chain m (nxt (m b)) cs" 
        "unat b = lo + 16 + unat (data_size (m a))"
        "laid_out m (lo + 16 + unat (data_size (m a)) + 16 + unat (data_size (m b))) cs hi"
        by simp_all
      from less.prems(2) have d: "distinct as" by (rule laid_out_distinct)
      with as bs have ne: "a \<noteq> b" "a \<notin> set cs" "b \<notin> set cs" by auto
      show ?thesis
      proof (cases "used (m a) = 0 \<and> used (m b) = 0")
        case True
        define m2 where "m2 = m(a := (m a)\<lparr>data_size := data_size (m a) + (data_size (m b) + 16),
                          nxt := nxt (m b)\<rparr>)"
        have step: "coalesce_loop m p = coalesce_loop m2 a"
          using coalesce_loop_absorb [of a m] a b ne True by (simp add: m2_def)
        have c2: "chain m2 a (a # cs)"
          using a b ne by (simp add: m2_def chain_upd)
        have "lo + 16 + unat (data_size (m a)) + 16 + unat (data_size (m b)) \<le> hi"
          using b(5) by (rule laid_out_le)
        with less.prems(3) have "unat (data_size (m a)) + (unat (data_size (m b)) + 16) < 2 ^ 32"
          by simp
        then have sz: "unat (data_size (m a) + (data_size (m b) + 16)) =
                    unat (data_size (m a)) + (unat (data_size (m b)) + 16)"
          by (simp add: unat_word_ariths)
        have l2: "laid_out m2 lo (a # cs) hi"
          using a b ne sz by (simp add: m2_def laid_out_upd add.assoc)
        have al: "list_all (\<lambda>a. aligned16 (data_size (m2 a))) (a # cs)"
          using less.prems(4) as bs ne
          by (auto simp add: m2_def list_all_iff aligned16_add32 aligned16_16)
        have "length (a # cs) < length as" using as bs by simp
        from less.hyps [OF this c2 l2 less.prems(3) al]
        obtain m' as' where r: "coalesce_loop m2 a = Some m'" "chain m' a as'"
          "laid_out m' lo as' hi" "coalesced m' as'"
          "list_all (\<lambda>a. aligned16 (data_size (m' a))) as'" "coalesce_post m2 (a # cs) m' as'"
          by blast
        have u2: "used (m2 x) = used (m x)" for x by (simp add: m2_def)
        have k2: "m2 x = m x" if "x \<noteq> a" for x using that by (simp add: m2_def)
        from r(6) have q: "set as' \<subseteq> set (a # cs)"
          "\<And>x. x \<notin> set (a # cs) \<Longrightarrow> m' x = m2 x"
          "\<And>x. x \<in> set as' \<Longrightarrow> used (m' x) = used (m2 x)"
          "\<And>x. x \<in> set (a # cs) \<Longrightarrow> used (m2 x) \<noteq> 0 \<Longrightarrow> x \<in> set as' \<and> m' x = m2 x"
          unfolding coalesce_post_def by blast+
        have "coalesce_post m as m' as'"
          unfolding coalesce_post_def
        proof (intro conjI allI ballI impI)
          show "set as' \<subseteq> set as"
            using q(1) as bs by auto
          show "m' x = m x" if "x \<notin> set as" for x
            using q(2) [of x] k2 [of x] that as bs by auto
          show "used (m' x) = used (m x)" if "x \<in> set as'" for x
            using q(3) [of x] u2 [of x] that by simp
          show "x \<in> set as'" if "x \<in> set as" "used (m x) \<noteq> 0" for x
            using q(4) [of x] u2 [of x] that as bs True by auto
          show "m' x = m x" if "x \<in> set as" "used (m x) \<noteq> 0" for x
          proof -
            from that True as bs have "x \<in> set cs" by auto
            moreover from this ne have "x \<noteq> a" by auto
            ultimately show ?thesis using q(4) [of x] u2 [of x] k2 [of x] that by simp
          qed
        qed
        with r step a show ?thesis
          by (intro exI [of _ m'] exI [of _ as']) simp
      next
        case False
        have step: "coalesce_loop m p = coalesce_loop m b"
          using coalesce_loop_advance [of a m] a b False by simp
        have c2: "chain m b (b # cs)" using b by simp
        have l2: "laid_out m (lo + 16 + unat (data_size (m a))) (b # cs) hi"
          using a bs by simp
        have bd: "hi < (lo + 16 + unat (data_size (m a))) + 2 ^ 32"
          using less.prems(3) by simp
        have al: "list_all (\<lambda>a. aligned16 (data_size (m a))) (b # cs)"
          using less.prems(4) as bs by simp
        have "length (b # cs) < length as" using as bs by simp
        from less.hyps [OF this c2 l2 bd al]
        obtain m' as' where r: "coalesce_loop m b = Some m'" "chain m' b as'"
          "laid_out m' (lo + 16 + unat (data_size (m a))) as' hi" "coalesced m' as'"
          "list_all (\<lambda>a. aligned16 (data_size (m' a))) as'" "coalesce_post m (b # cs) m' as'"
          by blast
        from r(2) b(2) obtain ds where as': "as' = b # ds" using chain_nonempty by blast
        from r(6) have q: "set as' \<subseteq> set (b # cs)"
          "\<And>x. x \<notin> set (b # cs) \<Longrightarrow> m' x = m x"
          "\<And>x. x \<in> set as' \<Longrightarrow> used (m' x) = used (m x)"
          "\<And>x. x \<in> set (b # cs) \<Longrightarrow> used (m x) \<noteq> 0 \<Longrightarrow> x \<in> set as' \<and> m' x = m x"
          unfolding coalesce_post_def by blast+
        from q(2) [of a] ne have keep: "m' a = m a" by simp
        from q(3) [of b] as' have ub: "used (m' b) = used (m b)" by simp
        have "chain m' p (a # as')" using a b r(2) keep by simp
        moreover have "laid_out m' lo (a # as') hi" using a r(3) keep by simp
        moreover have "coalesced m' (a # as')" using r(4) as' keep ub False by simp
        moreover have "list_all (\<lambda>a. aligned16 (data_size (m' a))) (a # as')"
          using r(5) keep less.prems(4) as by simp
        moreover have "coalesce_post m as m' (a # as')"
          unfolding coalesce_post_def
        proof (intro conjI allI ballI impI)
          show "set (a # as') \<subseteq> set as"
            using q(1) as bs by auto
          show "m' x = m x" if "x \<notin> set as" for x
            using q(2) [of x] that as bs by simp
          show "used (m' x) = used (m x)" if "x \<in> set (a # as')" for x
            using q(3) [of x] that keep by auto
          show "x \<in> set (a # as')" if "x \<in> set as" "used (m x) \<noteq> 0" for x
            using q(4) [of x] that as bs by auto
          show "m' x = m x" if "x \<in> set as" "used (m x) \<noteq> 0" for x
            using q(4) [of x] that as bs keep by auto
        qed
        ultimately show ?thesis using r(1) step
          by (intro exI [of _ m'] exI [of _ "a # as'"]) simp
      qed
    qed
  qed
qed

section \<open>\<open>dfree\<close> on a well-formed heap\<close>

lemma coalesce_loop_coalesced:
  "chain m p as \<Longrightarrow> coalesced m as \<Longrightarrow> coalesce_loop m p = Some m"
proof (induction as arbitrary: p)
  case Nil
  then show ?case by (simp add: coalesce_loop_stop)
next
  case (Cons a bs)
  show ?case
  proof (cases bs)
    case Nil
    with Cons.prems show ?thesis by (simp add: coalesce_loop_stop)
  next
    case (Cons b cs)
    with Cons.prems have "coalesce_loop m p = coalesce_loop m b"
      using coalesce_loop_advance [of a m] by auto
    also have "\<dots> = Some m"
      using Cons.prems Cons.IH [of b] Cons by simp
    finally show ?thesis .
  qed
qed

lemma dfree_loop_chain:
  "chain (mem s) cur as \<Longrightarrow>
   dfree_loop s bh cur =
     (if bh \<in> set as
      then map_option (\<lambda>s'. (s', None))
             (coalesce_blocks (s\<lparr>mem := (mem s)(bh := (mem s bh)\<lparr>used := 0\<rparr>)\<rparr>))
      else Some (s, Some UnknownAddress))"
proof (induction as arbitrary: cur)
  case Nil
  then show ?case by (subst dfree_loop.simps) simp
next
  case (Cons a as)
  then show ?case by (subst dfree_loop.simps) auto
qed

lemma dfree_cases:
  assumes "heap_inv base ext s as"
  shows "dfree s p =
     (if \<not> aligned16 (p - 16) then Some (s, Some MisalignedAddress)
      else if p - 16 \<in> set as
      then map_option (\<lambda>s'. (s', None))
             (coalesce_blocks (s\<lparr>mem := (mem s)(p - 16 := (mem s (p - 16))\<lparr>used := 0\<rparr>)\<rparr>))
      else Some (s, Some UnknownAddress))"
proof -
  from assms have "chain (mem s) (start s) as" by (simp add: heap_inv_def)
  then show ?thesis
    by (simp add: dfree_def Let_def ALIGNMENT_SIZE_def aligned16_mod dfree_loop_chain)
qed

text \<open>Marking a block of the sequence free and coalescing keeps the heap well formed
  and leaves no two free neighbours.\<close>

lemma dfree_block:
  assumes inv: "heap_inv base ext s as" and c: "c \<in> set as"
  shows "\<exists>s' as'. coalesce_blocks (s\<lparr>mem := (mem s)(c := (mem s c)\<lparr>used := 0\<rparr>)\<rparr>) = Some s' \<and>
           heap_inv base ext s' as' \<and> coalesced (mem s') as' \<and>
           coalesce_post ((mem s)(c := (mem s c)\<lparr>used := 0\<rparr>)) as (mem s') as'"
proof -
  define m1 where "m1 = (mem s)(c := (mem s c)\<lparr>used := 0\<rparr>)"
  from inv have i: "start s = base" "as \<noteq> []" "chain (mem s) base as"
    "laid_out (mem s) (unat base) as (unat base + ext)"
    "list_all (\<lambda>a. aligned16 a \<and> aligned16 (data_size (mem s a))) as"
    "unat base + ext < 2 ^ 64" "ext < 2 ^ 32"
    by (simp_all add: heap_inv_def)
  have c1: "chain m1 base as"
    using i(3) chain_frame [of as m1 "mem s" base] by (simp add: m1_def)
  have l1: "laid_out m1 (unat base) as (unat base + ext)"
    using i(4) laid_out_frame [of as m1 "mem s"] by (simp add: m1_def)
  have a1: "list_all (\<lambda>a. aligned16 (data_size (m1 a))) as"
    using i(5) by (simp add: m1_def list_all_iff)
  have b1: "unat base + ext < unat base + 2 ^ 32" using i(7) by simp
  from coalesce_loop_chain [OF c1 l1 b1 a1]
  obtain m' as' where r: "coalesce_loop m1 base = Some m'" "chain m' base as'"
    "laid_out m' (unat base) as' (unat base + ext)" "coalesced m' as'"
    "list_all (\<lambda>a. aligned16 (data_size (m' a))) as'" "coalesce_post m1 as m' as'"
    by blast
  from i(2,3) have "base \<noteq> 0" by (cases as) auto
  with r(2) have ne: "as' \<noteq> []" by (cases as') auto
  from r(6) have "set as' \<subseteq> set as" by (simp add: coalesce_post_def)
  with i(5) r(5) have al: "list_all (\<lambda>a. aligned16 a \<and> aligned16 (data_size (m' a))) as'"
    by (auto simp add: list_all_iff)
  have "coalesce_blocks (s\<lparr>mem := m1\<rparr>) = Some (s\<lparr>mem := m'\<rparr>)"
    using r(1) i(1) by (simp add: coalesce_blocks_def)
  moreover have "heap_inv base ext (s\<lparr>mem := m'\<rparr>) as'"
    using i r ne al by (simp add: heap_inv_def)
  ultimately show ?thesis using r(4,6) unfolding m1_def
    by (intro exI [of _ "s\<lparr>mem := m'\<rparr>"] exI [of _ as']) simp
qed




lemma used_clear: "used h = 0 \<Longrightarrow> h\<lparr>used := 0\<rparr> = h"
  by (cases h) simp

text \<open>
  C10. A second \<open>dfree\<close> of the same pointer, right after the first, on a heap whose
  sequence still holds the header: the call returns without a panic and leaves the
  state as it was.
\<close>

theorem double_dfree_noop:
  assumes "heap_inv base ext s0 as0" and "dfree s0 p = Some (s, None)"
    and "p - 16 \<in> blocks (mem s) (start s)"
  shows "dfree s p = Some (s, None)"
proof -
  let ?c = "p - 16"
  let ?m1 = "(mem s0)(?c := (mem s0 ?c)\<lparr>used := 0\<rparr>)"
  from assms(2) have al: "aligned16 ?c" and c0: "?c \<in> set as0"
    and co: "coalesce_blocks (s0\<lparr>mem := ?m1\<rparr>) = Some s"
    by (auto simp add: dfree_cases [OF assms(1)] split: if_splits)
  from dfree_block [OF assms(1) c0] co
  obtain as where r: "heap_inv base ext s as" "coalesced (mem s) as"
    "coalesce_post ?m1 as0 (mem s) as"
    by auto
  from r(1) have ch: "chain (mem s) (start s) as" by (simp add: heap_inv_def)
  with assms(3) have c: "?c \<in> set as" by (simp add: blocks_chain)
  with r(3) have "used (mem s ?c) = used (?m1 ?c)" by (simp add: coalesce_post_def)
  then have "used (mem s ?c) = 0" by simp
  then have "(mem s)(?c := (mem s ?c)\<lparr>used := 0\<rparr>) = mem s" by (simp add: used_clear)
  moreover have "coalesce_blocks s = Some s"
    using coalesce_loop_coalesced [OF ch r(2)] by (simp add: coalesce_blocks_def)
  ultimately show ?thesis
    using al c by (simp add: dfree_cases [OF r(1)])
qed

lemma demo_dfree: "dfree demo_heap 0x87F00010 = Some (demo_freed, None)"
  by (simp add: eval_defs loops demo_heap_def demo_freed_def fun_eq_iff)

theorem double_dfree_noop_witness:
  "heap_inv 0x87F00000 0x100000 demo_heap demo_blocks \<and>
   dfree demo_heap 0x87F00010 = Some (demo_freed, None) \<and>
   0x87F00010 - 16 \<in> blocks (mem demo_freed) (start demo_freed) \<and>
   dfree demo_freed 0x87F00010 = Some (demo_freed, None)"
proof -
  have b: "0x87F00010 - 16 \<in> blocks (mem demo_freed) (start demo_freed)"
    using blocks.first [of "start demo_freed" "mem demo_freed"] by (simp add: demo_freed_def)
  from double_dfree_noop [OF demo_inv demo_dfree b] demo_inv demo_dfree b
  show ?thesis by simp
qed

section \<open>Alignment in every reachable state\<close>

lemma blocks_closed:
  assumes "closed_aligned A m" and "p = 0 \<or> p \<in> A"
  shows "blocks m p \<subseteq> A"
proof
  fix a assume "a \<in> blocks m p"
  then show "a \<in> A"
  proof induction
    case first
    with assms(2) show ?case by simp
  next
    case (step a)
    with assms(1) show ?case by (auto simp add: closed_aligned_def)
  qed
qed

lemma aligned_heap_blocks:
  "aligned_heap s \<Longrightarrow> a \<in> blocks (mem s) (start s) \<Longrightarrow>
   aligned16 a \<and> aligned16 (data_size (mem s a))"
  using blocks_closed unfolding aligned_heap_def closed_aligned_def by blast

lemma dalloc_loop_selects:
  assumes "dalloc_loop sz r m cur = Some y" and "closed_aligned A m" and "cur = 0 \<or> cur \<in> A"
  shows "y = (m, 0) \<or> (\<exists>c \<in> A. y = (take_block sz r m c, c + 16))"
  using assms
proof (induction rule: dalloc_loop.raw_induct [rotated 1, consumes 1, case_names step])
  case (step dalloc_loop sz r m cur y)
  show ?case
  proof (cases "cur = 0")
    case True
    with step(2) show ?thesis by simp
  next
    case False
    with step(4) have cur: "cur \<in> A" by simp
    show ?thesis
    proof (cases "used (m cur) = 0 \<and> r \<le> data_size (m cur)")
      case True
      with step(2) False cur show ?thesis by auto
    next
      case no: False
      with step(2) False have "dalloc_loop sz r m (nxt (m cur)) = Some y" by auto
      moreover from cur step(3) have "nxt (m cur) = 0 \<or> nxt (m cur) \<in> A"
        by (simp add: closed_aligned_def)
      ultimately show ?thesis using step(1) step(3) by blast
    qed
  qed
qed

lemma take_block_closed:
  assumes "closed_aligned A m" and "c \<in> A" and "aligned16 r"
  shows "\<exists>A'. A \<subseteq> A' \<and> closed_aligned A' (take_block sz r m c)"
proof (cases "r < data_size (m c)")
  case False
  with assms(1) have "closed_aligned A (take_block sz r m c)"
    unfolding closed_aligned_def take_block_def Let_def by auto
  then show ?thesis by blast
next
  case True
  from assms have c: "aligned16 c" "aligned16 (data_size (m c))" "nxt (m c) = 0 \<or> nxt (m c) \<in> A"
    by (simp_all add: closed_aligned_def)
  have nb: "aligned16 (c + ucast r)"
    using c(1) assms(3) by (simp add: aligned16_add64 aligned16_ucast_up)
  have d: "aligned16 (data_size (m c) - r)"
    using c(2) assms(3) by (rule aligned16_diff32)
  have a: "aligned16 ((sz + 15) AND NOT 15)" by (rule aligned16_and_not_15)
  have rest: "aligned16 x \<and> aligned16 (data_size (m x)) \<and> (nxt (m x) = 0 \<or> nxt (m x) \<in> A)"
    if "x \<in> A" for x
    using assms(1) that by (simp add: closed_aligned_def)
  have "closed_aligned (insert (c + ucast r) A) (take_block sz r m c)"
    unfolding closed_aligned_def take_block_def split_block_def Let_def ALIGNMENT_SIZE_def
    using True c nb d a rest by auto
  then show ?thesis by blast
qed

lemma dalloc_aligned_heap:
  assumes "aligned_heap s" and "dalloc s sz = Some (s', p)"
  shows "aligned_heap s' \<and> aligned16 p"
proof -
  from assms(1) obtain A where A: "start s = 0 \<or> start s \<in> A" "closed_aligned A (mem s)"
    unfolding aligned_heap_def by blast
  from assms(2) obtain m' where l: "dalloc_loop sz (required_size sz) (mem s) (start s) = Some (m', p)"
    and s': "s' = s\<lparr>mem := m'\<rparr>"
    by (auto simp add: dalloc_def)
  from dalloc_loop_selects [OF l A(2) A(1)]
  consider "m' = mem s" "p = 0"
    | c where "c \<in> A" "m' = take_block sz (required_size sz) (mem s) c" "p = c + 16"
    by auto
  then show ?thesis
  proof cases
    case 1
    with assms(1) s' show ?thesis by (simp add: aligned_heap_def aligned16_0)
  next
    case 2
    from take_block_closed [OF A(2) 2(1) aligned16_required_size, of sz sz]
    obtain A' where "A \<subseteq> A'" "closed_aligned A' m'" using 2(2) by auto
    with A(1) s' have "aligned_heap s'" unfolding aligned_heap_def by auto
    moreover from A(2) 2(1) have "aligned16 c" by (simp add: closed_aligned_def)
    then have "aligned16 p" using 2(3) by (simp add: aligned16_add64 aligned16_16)
    ultimately show ?thesis ..
  qed
qed

lemma coalesce_loop_closed:
  assumes "coalesce_loop m cur = Some m'" and "closed_aligned A m" and "cur = 0 \<or> cur \<in> A"
  shows "closed_aligned A m'"
  using assms
proof (induction rule: coalesce_loop.raw_induct [rotated 1, consumes 1, case_names step])
  case (step coalesce_loop m cur m')
  show ?case
  proof (cases "cur \<noteq> 0 \<and> nxt (m cur) \<noteq> 0")
    case False
    with step(2) step(3) show ?thesis by auto
  next
    case True
    with step(4) have cur: "cur \<in> A" by simp
    with step(3) True have n: "nxt (m cur) \<in> A" by (auto simp add: closed_aligned_def)
    have mem: "aligned16 x \<and> aligned16 (data_size (m x)) \<and> (nxt (m x) = 0 \<or> nxt (m x) \<in> A)"
      if "x \<in> A" for x
      using step(3) that by (simp add: closed_aligned_def)
    show ?thesis
    proof (cases "used (m cur) = 0 \<and> used (m (nxt (m cur))) = 0")
      case False
      with step(2) True have "coalesce_loop m (nxt (m cur)) = Some m'" by auto
      with step(1) step(3) n show ?thesis by blast
    next
      case both: True
      define m1 where "m1 = m(cur := (m cur)\<lparr>data_size :=
                        data_size (m cur) + (data_size (m (nxt (m cur))) + HEADER_SIZE)\<rparr>)"
      define m2 where "m2 = m1(cur := (m1 cur)\<lparr>nxt := nxt (m1 (nxt (m1 cur)))\<rparr>)"
      from step(2) True both have r: "coalesce_loop m2 cur = Some m'"
        by (simp add: m1_def m2_def Let_def)
      have "aligned16 (data_size (m cur) + (data_size (m (nxt (m cur))) + HEADER_SIZE))"
        using mem [OF cur] mem [OF n]
        by (simp add: HEADER_SIZE_def aligned16_add32 aligned16_16)
      moreover have "nxt (m1 (nxt (m1 cur))) = 0 \<or> nxt (m1 (nxt (m1 cur))) \<in> A"
        using mem [OF cur] mem [OF n] by (auto simp add: m1_def)
      ultimately have "closed_aligned A m2"
        using mem unfolding closed_aligned_def m2_def m1_def by auto
      with step(1) r cur show ?thesis by blast
    qed
  qed
qed

lemma dfree_loop_closed:
  assumes "dfree_loop s bh cur = Some (s', e)" and "closed_aligned A (mem s)" and "cur = 0 \<or> cur \<in> A"
    and "start s = 0 \<or> start s \<in> A"
  shows "start s' = start s \<and> closed_aligned A (mem s')"
  using assms
proof (induction s bh cur "(s', e)" rule: dfree_loop.raw_induct [rotated 1, consumes 1, case_names step])
  case (step dfree_loop s bh cur)
  show ?case
  proof (cases "cur = 0")
    case True
    with step(2) step(3) show ?thesis by auto
  next
    case False
    with step(4) have cur: "cur \<in> A" by simp
    show ?thesis
    proof (cases "cur = bh")
      case True
      let ?m1 = "(mem s)(cur := (mem s cur)\<lparr>used := 0\<rparr>)"
      from step(2) False True obtain m' where
        c: "coalesce_loop ?m1 (start s) = Some m'" and s': "s' = s\<lparr>mem := m'\<rparr>"
        by (auto simp add: coalesce_blocks_def)
      have "closed_aligned A ?m1"
        using step(3) unfolding closed_aligned_def by auto
      from coalesce_loop_closed [OF c this step(5)] s' show ?thesis by simp
    next
      case no: False
      with step(2) False have "dfree_loop s bh (nxt (mem s cur)) = Some (s', e)" by auto
      moreover from cur step(3) have "nxt (mem s cur) = 0 \<or> nxt (mem s cur) \<in> A"
        by (simp add: closed_aligned_def)
      ultimately show ?thesis using step(1) step(3) step(5) by blast
    qed
  qed
qed

lemma dfree_aligned_heap:
  assumes "aligned_heap s" and "dfree s p = Some (s', e)"
  shows "aligned_heap s'"
proof -
  from assms(1) obtain A where A: "start s = 0 \<or> start s \<in> A" "closed_aligned A (mem s)"
    unfolding aligned_heap_def by blast
  show ?thesis
  proof (cases "(p - 16) mod ucast ALIGNMENT_SIZE \<noteq> 0")
    case True
    with assms show ?thesis by (simp add: dfree_def Let_def)
  next
    case False
    with assms(2) have "dfree_loop s (p - 16) (start s) = Some (s', e)"
      by (simp add: dfree_def Let_def)
    from dfree_loop_closed [OF this A(2) A(1) A(1)] A(1) show ?thesis
      unfolding aligned_heap_def by auto
  qed
qed

lemma dinit_aligned_heap:
  assumes "aligned16 (PHYSTOP - HEAP_SIZE)" and "aligned16 HEAP_SIZE"
  shows "aligned_heap (dinit PHYSTOP HEAP_SIZE s0)"
proof -
  have "aligned16 (HEAP_SIZE - 16)"
    using assms(2) aligned16_16 by (rule aligned16_diff64)
  then have "aligned16 (ucast (HEAP_SIZE - 16) :: uint)" by (rule aligned16_ucast_down)
  with assms(1) have "closed_aligned {PHYSTOP - HEAP_SIZE} (mem (dinit PHYSTOP HEAP_SIZE s0))"
    by (simp add: closed_aligned_def dinit_def Let_def HEADER_SIZE_def)
  then show ?thesis
    unfolding aligned_heap_def by (intro exI [of _ "{PHYSTOP - HEAP_SIZE}"]) (simp add: dinit_def Let_def)
qed

lemma reachable_aligned_heap:
  assumes "reachable PHYSTOP HEAP_SIZE s" and "aligned16 (PHYSTOP - HEAP_SIZE)" and "aligned16 HEAP_SIZE"
  shows "aligned_heap s"
  using assms
proof induction
  case (init s0)
  then show ?case by (rule dinit_aligned_heap)
next
  case (alloc s sz s' p)
  then show ?case using dalloc_aligned_heap by blast
next
  case (free s p s')
  then show ?case using dfree_aligned_heap by blast
qed

text \<open>
  C8. With a 16-aligned heap base and a heap extent that is a multiple of 16, in every
  state reachable from \<open>dinit\<close> by calls of \<open>dalloc\<close> and \<open>dfree\<close> that return, every
  block of the sequence starts at a multiple of 16 and has a \<open>data_size\<close> that is a
  multiple of 16, and every pointer \<open>dalloc\<close> returns there is a multiple of 16.
\<close>

theorem reachable_aligned:
  assumes "reachable PHYSTOP HEAP_SIZE s"
    and "aligned16 (PHYSTOP - HEAP_SIZE)" and "aligned16 HEAP_SIZE"
  shows "(\<forall>a \<in> blocks (mem s) (start s). aligned16 a \<and> aligned16 (data_size (mem s a))) \<and>
         (\<forall>sz s' p. dalloc s sz = Some (s', p) \<longrightarrow> aligned16 p)"
  using reachable_aligned_heap [OF assms] aligned_heap_blocks dalloc_aligned_heap by blast

theorem reachable_aligned_witness:
  "reachable 0x88000000 0x100000 fresh_heap \<and>
   aligned16 (0x88000000 - 0x100000 :: addr) \<and> aligned16 (0x100000 :: addr) \<and>
   0x87F00000 \<in> blocks (mem fresh_heap) (start fresh_heap) \<and>
   aligned16 (0x87F00000 :: addr) \<and> aligned16 (data_size (mem fresh_heap 0x87F00000)) \<and>
   map_option snd (dalloc fresh_heap 100) = Some 0x87F00010 \<and>
   aligned16 (0x87F00010 :: addr)"
proof -
  have r: "reachable 0x88000000 0x100000 fresh_heap"
    unfolding fresh_heap_def by (rule reachable.init)
  have a: "aligned16 (0x88000000 - 0x100000 :: addr)" "aligned16 (0x100000 :: addr)"
    by (simp_all add: aligned16_def)
  have b: "0x87F00000 \<in> blocks (mem fresh_heap) (start fresh_heap)"
    using blocks.first [of "start fresh_heap" "mem fresh_heap"]
    by (simp add: fresh_heap_def dinit_def Let_def)
  obtain s1 where d: "dalloc fresh_heap 100 = Some (s1, 0x87F00010)"
    by (simp add: eval_defs loops)
  from reachable_aligned [OF r a] b d
  have "aligned16 (0x87F00000 :: addr) \<and> aligned16 (data_size (mem fresh_heap 0x87F00000))"
    and "aligned16 (0x87F00010 :: addr)"
    by blast+
  with r a b d show ?thesis by simp
qed

section \<open>The freshly initialised heap\<close>

lemma dinit_fields:
  "start (dinit PHYSTOP HEAP_SIZE s0) = PHYSTOP - HEAP_SIZE"
  "mem (dinit PHYSTOP HEAP_SIZE s0) (PHYSTOP - HEAP_SIZE) =
     \<lparr>data_size = ucast (HEAP_SIZE - 16), used = 0, nxt = 0\<rparr>"
  by (cases "mem s0 (PHYSTOP - HEAP_SIZE)"; simp add: dinit_def Let_def HEADER_SIZE_def)+

lemma unat_ucast_less:
  "unat (x::addr) < 2 ^ 32 \<Longrightarrow> unat (ucast x :: uint) = unat x"
  by (simp add: unsigned_ucast_eq take_bit_nat_eq_self)

lemma dinit_data_size:
  assumes "16 \<le> unat (HEAP_SIZE :: addr)" and "unat HEAP_SIZE < 2 ^ 32"
  shows "unat (ucast (HEAP_SIZE - 16) :: uint) = unat HEAP_SIZE - 16"
proof -
  have "(16::addr) \<le> HEAP_SIZE" using assms(1) by (simp add: word_le_nat_alt)
  then have "unat (HEAP_SIZE - 16) = unat HEAP_SIZE - 16" by (simp add: unat_sub)
  with assms(2) show ?thesis by (simp add: unat_ucast_less)
qed

lemma dinit_heap_inv:
  assumes "valid_region PHYSTOP HEAP_SIZE"
  shows "heap_inv (PHYSTOP - HEAP_SIZE) (unat HEAP_SIZE) (dinit PHYSTOP HEAP_SIZE s0)
           [PHYSTOP - HEAP_SIZE]"
proof -
  from assms have v: "PHYSTOP - HEAP_SIZE \<noteq> 0" "aligned16 (PHYSTOP - HEAP_SIZE)"
    "aligned16 HEAP_SIZE" "16 \<le> unat HEAP_SIZE" "unat HEAP_SIZE < 2 ^ 32"
    "unat (PHYSTOP - HEAP_SIZE) + unat HEAP_SIZE < 2 ^ 64"
    by (simp_all add: valid_region_def)
  have "aligned16 (HEAP_SIZE - 16)" using v(3) aligned16_16 by (rule aligned16_diff64)
  then have "aligned16 (ucast (HEAP_SIZE - 16) :: uint)" by (rule aligned16_ucast_down)
  with v dinit_data_size [OF v(4,5)] show ?thesis
    by (simp add: heap_inv_def dinit_fields)
qed


lemma round_down_pred: "n mod 16 = 0 \<Longrightarrow> 16 \<le> n \<Longrightarrow> (n - 1) div 16 * 16 = n - (16::nat)"
proof -
  assume a: "n mod 16 = 0" "16 \<le> n"
  then obtain k where k: "n = 16 * k" by (auto simp add: mod_eq_0_iff_dvd)
  with a(2) have "0 < k" by simp
  then obtain j where j: "k = Suc j" by (cases k) auto
  have "(16 * Suc j - 1) div 16 = j"
  proof -
    have "16 * Suc j - 1 = j * 16 + 15" by simp
    then show ?thesis by simp
  qed
  with k j show ?thesis by simp
qed

lemma round_up_aligned: "n mod 16 = 0 \<Longrightarrow> (n + 15) div 16 * 16 = (n::nat)"
proof -
  assume "n mod 16 = 0"
  then obtain k where k: "n = 16 * k" by (auto simp add: mod_eq_0_iff_dvd)
  have "(k * 16 + 15) div 16 = k" by simp
  with k show ?thesis by (simp add: mult.commute)
qed

lemma aligned_below: "n mod 16 = 0 \<Longrightarrow> n < 4294967296 \<Longrightarrow> n + 15 < (4294967296::nat)"
proof -
  assume a: "n mod 16 = 0" "n < 4294967296"
  then obtain k where k: "n = 16 * k" by (auto simp add: mod_eq_0_iff_dvd)
  with a(2) have "k < 268435456" by simp
  with k show ?thesis by simp
qed

lemma take_block_exact:
  "\<not> r < data_size (m c) \<Longrightarrow> take_block sz r m c = m(c := (m c)\<lparr>used := 1\<rparr>)"
  by (simp add: take_block_def)

lemma required_size_largest:
  assumes "valid_region PHYSTOP HEAP_SIZE" and "32 \<le> unat HEAP_SIZE"
  shows "required_size (ucast (HEAP_SIZE - 32)) = ucast (HEAP_SIZE - 16)"
proof -
  from assms have v: "aligned16 HEAP_SIZE" "16 \<le> unat HEAP_SIZE" "unat HEAP_SIZE < 2 ^ 32"
    by (simp_all add: valid_region_def)
  have "(32::addr) \<le> HEAP_SIZE" using assms(2) by (simp add: word_le_nat_alt)
  then have "unat (HEAP_SIZE - 32) = unat HEAP_SIZE - 32" by (simp add: unat_sub)
  with v(3) have sz: "unat (ucast (HEAP_SIZE - 32) :: uint) = unat HEAP_SIZE - 32"
    by (simp add: unat_ucast_less)
  have e: "unat HEAP_SIZE - 32 + 31 = unat HEAP_SIZE - 1" using assms(2) by simp
  have "unat HEAP_SIZE - 1 < 4294967296" using v(3) by simp
  then have "unat (required_size (ucast (HEAP_SIZE - 32))) = (unat HEAP_SIZE - 1) div 16 * 16"
    by (simp add: unat_required_size sz e)
  also have "\<dots> = unat HEAP_SIZE - 16"
    using v(1,2) unfolding aligned16_def by (rule round_down_pred)
  finally show ?thesis
    by (simp add: word_unat_eq_iff dinit_data_size [OF v(2,3)])
qed

lemma required_size_payload:
  assumes "valid_region PHYSTOP HEAP_SIZE"
  shows "unat (required_size (ucast (HEAP_SIZE - 16))) = unat HEAP_SIZE"
proof -
  from assms have v: "aligned16 HEAP_SIZE" "16 \<le> unat HEAP_SIZE" "unat HEAP_SIZE < 2 ^ 32"
    by (simp_all add: valid_region_def)
  have e: "unat HEAP_SIZE - 16 + 31 = unat HEAP_SIZE + 15" using v(2) by simp
  have "unat HEAP_SIZE < 4294967296" using v(3) by simp
  with v(1) have "unat HEAP_SIZE + 15 < 4294967296"
    unfolding aligned16_def by (rule aligned_below)
  then have "unat (required_size (ucast (HEAP_SIZE - 16))) = (unat HEAP_SIZE + 15) div 16 * 16"
    by (simp add: unat_required_size dinit_data_size [OF v(2,3)] e)
  also have "\<dots> = unat HEAP_SIZE"
    using v(1) unfolding aligned16_def by (rule round_up_aligned)
  finally show ?thesis .
qed

text \<open>
  C4, as amended. On a freshly initialised heap the largest request that succeeds is
  \<open>HEAP_SIZE - 32\<close>, the extent less two header sizes: the first call returns the
  payload pointer of the only block and leaves it used, unsplit, with \<open>data_size\<close>
  \<open>HEAP_SIZE - 16\<close> and no successor; a second identical call returns the null pointer
  and changes nothing. The request \<open>HEAP_SIZE - 16\<close> of the claim returns the null
  pointer on the fresh heap, since the fit test compares \<open>data_size\<close> with the request
  plus one header.
\<close>

theorem dalloc_largest_request:
  assumes "valid_region PHYSTOP HEAP_SIZE" and "32 \<le> unat HEAP_SIZE"
  shows "dalloc (dinit PHYSTOP HEAP_SIZE s0) (ucast (HEAP_SIZE - 32)) =
           Some (whole_heap_taken PHYSTOP HEAP_SIZE s0, PHYSTOP - HEAP_SIZE + 16) \<and>
         PHYSTOP - HEAP_SIZE + 16 \<noteq> 0 \<and>
         dalloc (whole_heap_taken PHYSTOP HEAP_SIZE s0) (ucast (HEAP_SIZE - 32)) =
           Some (whole_heap_taken PHYSTOP HEAP_SIZE s0, 0) \<and>
         dalloc (dinit PHYSTOP HEAP_SIZE s0) (ucast (HEAP_SIZE - 16)) =
           Some (dinit PHYSTOP HEAP_SIZE s0, 0)"
proof -
  let ?s = "dinit PHYSTOP HEAP_SIZE s0" and ?b = "PHYSTOP - HEAP_SIZE"
  let ?t = "whole_heap_taken PHYSTOP HEAP_SIZE s0"
  note inv = dinit_heap_inv [OF assms(1), of s0]
  from assms(1) have v: "?b \<noteq> 0" "16 \<le> unat HEAP_SIZE" "unat HEAP_SIZE < 2 ^ 32"
    by (simp_all add: valid_region_def)
  note r = required_size_largest [OF assms]
  have "dalloc ?s (ucast (HEAP_SIZE - 32)) = Some (?t, ?b + 16)"
    using dalloc_result [OF inv, of "ucast (HEAP_SIZE - 32)"]
    by (simp add: r fits_def dinit_fields take_block_exact whole_heap_taken_def)
  moreover have "?b + 16 \<noteq> 0"
    using block_payload_address(2) [OF inv, of ?b] by simp
  moreover have "dalloc ?t (ucast (HEAP_SIZE - 32)) = Some (?t, 0)"
  proof -
    have "chain (mem ?t) (start ?t) [?b]"
      using v(1) by (simp add: whole_heap_taken_def dinit_fields)
    from dalloc_loop_chain [OF this] show ?thesis
      by (simp add: dalloc_def fits_def whole_heap_taken_def)
  qed
  moreover have "dalloc ?s (ucast (HEAP_SIZE - 16)) = Some (?s, 0)"
  proof -
    have "\<not> required_size (ucast (HEAP_SIZE - 16)) \<le> (ucast (HEAP_SIZE - 16) :: uint)"
      using required_size_payload [OF assms(1)] dinit_data_size [OF v(2,3)] v(2)
      by (simp add: word_le_nat_alt)
    then show ?thesis
      using dalloc_result [OF inv, of "ucast (HEAP_SIZE - 16)"]
      by (simp add: fits_def dinit_fields)
  qed
  ultimately show ?thesis by simp
qed

lemma valid_region_demo: "valid_region 0x88000000 0x100000"
  by (simp add: valid_region_def aligned16_def)

theorem dalloc_largest_request_witness:
  "valid_region 0x88000000 0x100000 \<and> 32 \<le> unat (0x100000 :: addr) \<and>
   dalloc fresh_heap 0xFFFE0 = Some (whole_heap_taken 0x88000000 0x100000 boot, 0x87F00010) \<and>
   dalloc (whole_heap_taken 0x88000000 0x100000 boot) 0xFFFE0 =
     Some (whole_heap_taken 0x88000000 0x100000 boot, 0) \<and>
   dalloc fresh_heap 0xFFFF0 = Some (fresh_heap, 0)"
proof -
  have h: "32 \<le> unat (0x100000 :: addr)" by simp
  from dalloc_largest_request [OF valid_region_demo h, of boot] valid_region_demo h
  show ?thesis by (simp add: fresh_heap_def)
qed

text \<open>
  C4, as stated: \<open>allocate (heap_extent - header_size)\<close> succeeds on a fresh heap. On
  the fresh heap of 1 MiB the call returns the null pointer.
\<close>

theorem dalloc_whole_payload_counterexample:
  "dalloc fresh_heap (0x100000 - 16) = Some (fresh_heap, 0)"
  by (simp add: eval_defs loops)

section \<open>Splitting and the capacity of the heap\<close>

text \<open>The split of lines 86 to 93, when the new header is not the selected one.\<close>

lemma take_block_split:
  assumes "r < data_size (m c)" and "c + ucast r \<noteq> c"
  shows "take_block sz r m c =
           m(c + ucast r := \<lparr>data_size = data_size (m c) - r, used = 0, nxt = nxt (m c)\<rparr>,
             c := \<lparr>data_size = (sz + 15) AND NOT 15, used = 1, nxt = c + ucast r\<rparr>)"
  using assms
  by (cases "m c"; cases "m (c + ucast r)")
     (simp add: take_block_def split_block_def Let_def ALIGNMENT_SIZE_def fun_eq_iff)

lemma ucast_required_nonzero: "(r::uint) \<noteq> 0 \<Longrightarrow> c + (ucast r :: addr) \<noteq> c"
proof -
  assume "r \<noteq> 0"
  then have "unat r \<noteq> 0" by (simp add: unat_eq_0)
  moreover have "unat (ucast r :: addr) = unat r"
    by (simp add: unsigned_ucast_eq take_bit_nat_eq_self unsigned_less [of r, THEN less_trans])
  ultimately have "(ucast r :: addr) \<noteq> 0" by (metis unat_0)
  then show ?thesis by simp
qed


lemma laid_out_apart:
  "laid_out m lo as hi \<Longrightarrow> c \<in> set as \<Longrightarrow> x \<in> set as \<Longrightarrow>
   unat x \<le> unat c \<or> unat c + 16 + unat (data_size (m c)) \<le> unat x"
proof (induction as arbitrary: lo)
  case Nil
  then show ?case by simp
next
  case (Cons b bs)
  from Cons.prems(1) have l: "unat b = lo" "laid_out m (lo + 16 + unat (data_size (m b))) bs hi"
    by simp_all
  show ?case
  proof (cases "c = b")
    case True
    show ?thesis
    proof (cases "x = b")
      case True
      then show ?thesis using \<open>c = b\<close> by simp
    next
      case False
      with Cons.prems(3) have "x \<in> set bs" by simp
      from laid_out_bounds [OF l(2) this] l(1) True show ?thesis by simp
    qed
  next
    case False
    with Cons.prems(2) have c: "c \<in> set bs" by simp
    show ?thesis
    proof (cases "x = b")
      case True
      from laid_out_bounds [OF l(2) c] l(1) True show ?thesis by simp
    next
      case False
      with Cons.prems(3) have "x \<in> set bs" by simp
      from Cons.IH [OF l(2) c this] show ?thesis .
    qed
  qed
qed

lemma set_insert_after: "c \<in> set as \<Longrightarrow> set (insert_after c nb as) = insert nb (set as)"
  by (induction as) auto

lemma coalesced_frame:
  "(\<And>a. a \<in> set as \<Longrightarrow> used (m' a) = used (m a)) \<Longrightarrow> coalesced m' as = coalesced m as"
  by (induction m as rule: coalesced.induct) auto

lemma coalesced_mark_used:
  "u \<noteq> 0 \<Longrightarrow> coalesced m as \<Longrightarrow> coalesced (m(c := (m c)\<lparr>used := u\<rparr>)) as"
  by (induction m as rule: coalesced.induct) auto

lemma split_layout_at:
  assumes "chain m p as" and "laid_out m lo as hi" and "c \<in> set as" and "nb \<notin> set as"
    and "nb \<noteq> 0" and "unat nb = unat c + 16 + unat a"
    and "unat a + 16 + unat e = unat (data_size (m c))"
  shows "chain (m(nb := \<lparr>data_size = e, used = 0, nxt = nxt (m c)\<rparr>,
                  c := \<lparr>data_size = a, used = u, nxt = nb\<rparr>)) p (insert_after c nb as) \<and>
         laid_out (m(nb := \<lparr>data_size = e, used = 0, nxt = nxt (m c)\<rparr>,
                     c := \<lparr>data_size = a, used = u, nxt = nb\<rparr>)) lo (insert_after c nb as) hi"
  using assms(1-4)
proof (induction as arbitrary: p lo)
  case Nil
  then show ?case by simp
next
  case (Cons b bs)
  let ?m' = "m(nb := \<lparr>data_size = e, used = 0, nxt = nxt (m c)\<rparr>,
               c := \<lparr>data_size = a, used = u, nxt = nb\<rparr>)"
  from Cons.prems have b: "p = b" "b \<noteq> 0" "chain m (nxt (m b)) bs" "unat b = lo"
    "laid_out m (lo + 16 + unat (data_size (m b))) bs hi" "nb \<noteq> b" "nb \<notin> set bs"
    by auto
  from Cons.prems(2) have "distinct (b # bs)" by (rule laid_out_distinct)
  then have d: "b \<notin> set bs" by simp
  show ?case
  proof (cases "c = b")
    case True
    have "chain ?m' (nxt (m c)) bs"
      using b(3,7) d True by (simp add: chain_upd)
    then have "chain ?m' p (b # nb # bs)"
      using b True assms(5) by simp
    moreover have "laid_out ?m' lo (b # nb # bs) hi"
    proof -
      have eq: "lo + 16 + unat (data_size (m b)) = lo + 16 + unat a + 16 + unat e"
        using assms(7) True by simp
      have "laid_out ?m' (lo + 16 + unat (data_size (m b))) bs hi"
        using b(5,7) d True by (simp add: laid_out_upd)
      then have "laid_out ?m' (lo + 16 + unat a + 16 + unat e) bs hi" by (simp only: eq)
      moreover have "laid_out ?m' lo (b # nb # bs) hi \<longleftrightarrow>
          unat b = lo \<and> unat nb = lo + 16 + unat a \<and>
          laid_out ?m' (lo + 16 + unat a + 16 + unat e) bs hi"
        using b(6) True by simp
      ultimately show ?thesis using b(4) assms(6) True by simp
    qed
    moreover have "insert_after c nb (b # bs) = b # nb # bs" using True by simp
    ultimately show ?thesis by (simp only:)
  next
    case False
    with Cons.prems(3) have c: "c \<in> set bs" by simp
    from Cons.IH [OF b(3) b(5) c b(7)]
    have r: "chain ?m' (nxt (m b)) (insert_after c nb bs)"
      "laid_out ?m' (lo + 16 + unat (data_size (m b))) (insert_after c nb bs) hi"
      by blast+
    have "?m' b = m b" using False b(6) by simp
    with r b have "chain ?m' p (b # insert_after c nb bs)"
      "laid_out ?m' lo (b # insert_after c nb bs) hi" by simp_all
    moreover have "insert_after c nb (b # bs) = b # insert_after c nb bs" using False by simp
    ultimately show ?thesis by (simp only:)
  qed
qed

lemma split_coalesced:
  assumes "coalesced m as" and "distinct as" and "c \<in> set as" and "nb \<notin> set as"
    and "used (m c) = 0" and "u \<noteq> 0"
  shows "coalesced (m(nb := \<lparr>data_size = e, used = 0, nxt = n\<rparr>,
                      c := \<lparr>data_size = a, used = u, nxt = nb\<rparr>)) (insert_after c nb as)"
  using assms(1-4)
proof (induction as)
  case Nil
  then show ?case by simp
next
  case (Cons b bs)
  let ?m' = "m(nb := \<lparr>data_size = e, used = 0, nxt = n\<rparr>,
               c := \<lparr>data_size = a, used = u, nxt = nb\<rparr>)"
  from Cons.prems have nb: "nb \<noteq> b" "nb \<notin> set bs" and d: "b \<notin> set bs" "distinct bs"
    by auto
  have same: "used (?m' x) = used (m x)" if "x \<noteq> c" "x \<noteq> nb" for x
    using that by simp
  show ?case
  proof (cases "c = b")
    case True
    have tail: "coalesced ?m' (nb # bs)"
    proof (cases bs)
      case Nil
      then show ?thesis by simp
    next
      case (Cons x xs)
      from Cons d nb True have x: "x \<noteq> c" "x \<noteq> nb" by auto
      from Cons Cons.prems(1) True assms(5) have "used (m x) \<noteq> 0" "coalesced m (x # xs)"
        by auto
      moreover have "coalesced ?m' (x # xs) = coalesced m (x # xs)"
        using Cons d nb True by (intro coalesced_frame same) auto
      ultimately show ?thesis using Cons same [OF x] by simp
    qed
    have "used (?m' b) \<noteq> 0" using True assms(6) by simp
    with tail have "coalesced ?m' (b # nb # bs)" by simp
    moreover have "insert_after c nb (b # bs) = b # nb # bs" using True by simp
    ultimately show ?thesis by (simp only:)
  next
    case False
    with Cons.prems(3) have c: "c \<in> set bs" by simp
    then obtain x xs where bs: "bs = x # xs" by (cases bs) auto
    from Cons.prems(1) bs have old: "\<not> (used (m b) = 0 \<and> used (m x) = 0)" "coalesced m bs"
      by simp_all
    from Cons.IH [OF old(2) d(2) c nb(2)] have ih: "coalesced ?m' (insert_after c nb bs)" .
    have b: "used (?m' b) = used (m b)" using False nb(1) by simp
    have "\<not> (used (?m' b) = 0 \<and> used (?m' x) = 0)"
    proof (cases "x = c")
      case True
      with assms(6) show ?thesis by simp
    next
      case False
      moreover from bs nb(2) have "x \<noteq> nb" by auto
      ultimately show ?thesis using old(1) b same [of x] by simp
    qed
    moreover obtain rest where rest: "insert_after c nb bs = x # rest"
      using bs by (cases "x = c") auto
    ultimately have "coalesced ?m' (b # insert_after c nb bs)" using ih by simp
    moreover have "insert_after c nb (b # bs) = b # insert_after c nb bs" using False by simp
    ultimately show ?thesis by (simp only:)
  qed
qed


lemma unat_required_size_alt:
  assumes "required_size sz \<noteq> 0"
  shows "unat (required_size sz) = unat ((sz + 15) AND NOT 15) + 16"
proof -
  let ?a = "(sz + 15) AND NOT 15"
  have "unat ?a + unat (16 :: uint) < 2 ^ LENGTH(32)"
  proof (rule ccontr)
    assume "\<not> unat ?a + unat (16 :: uint) < 2 ^ LENGTH(32)"
    then have "4294967296 \<le> unat ?a + 16" by simp
    moreover have "unat ?a < 4294967296" using unsigned_less [of ?a] by simp
    moreover have "unat ?a mod 16 = 0" unfolding unat_and_not_15 by simp
    ultimately have "unat ?a = 4294967280" by presburger
    then have "?a = 4294967280" by (simp add: word_unat_eq_iff)
    then have "required_size sz = 0" by (simp only: required_size_alt) simp
    with assms show False by simp
  qed
  then have "unat (?a + 16) = unat ?a + unat (16 :: uint)" by (simp only: unat_add_lem)
  then show ?thesis by (simp add: required_size_alt)
qed

lemma take_block_heap_inv:
  assumes inv: "heap_inv base ext s as" and c: "c \<in> set as"
    and f: "fits (mem s) (required_size sz) c" and r: "required_size sz \<noteq> 0"
  shows "\<exists>as'. heap_inv base ext (s\<lparr>mem := take_block sz (required_size sz) (mem s) c\<rparr>) as' \<and>
           (coalesced (mem s) as \<longrightarrow>
              coalesced (take_block sz (required_size sz) (mem s) c) as') \<and>
           {a \<in> set as'. used (take_block sz (required_size sz) (mem s) c a) \<noteq> 0} =
             insert c {a \<in> set as. used (mem s a) \<noteq> 0}"
proof -
  let ?r = "required_size sz" and ?m = "mem s"
  from inv have i: "start s = base" "as \<noteq> []" "chain ?m base as"
    "laid_out ?m (unat base) as (unat base + ext)"
    "list_all (\<lambda>a. aligned16 a \<and> aligned16 (data_size (?m a))) as"
    "unat base + ext < 2 ^ 64" "ext < 2 ^ 32"
    by (simp_all add: heap_inv_def)
  from f have free: "used (?m c) = 0" by (simp add: fits_def)
  show ?thesis
  proof (cases "?r < data_size (?m c)")
    case False
    let ?m' = "?m(c := (?m c)\<lparr>used := 1\<rparr>)"
    from False have t: "take_block sz ?r ?m c = ?m'" by (rule take_block_exact)
    have "chain ?m' base as"
      using i(3) chain_frame [of as ?m' ?m base] by simp
    moreover have "laid_out ?m' (unat base) as (unat base + ext)"
      using i(4) laid_out_frame [of as ?m' ?m] by simp
    moreover have "list_all (\<lambda>a. aligned16 a \<and> aligned16 (data_size (?m' a))) as"
      using i(5) by (simp add: list_all_iff)
    ultimately have "heap_inv base ext (s\<lparr>mem := ?m'\<rparr>) as"
      using i by (simp add: heap_inv_def)
    moreover have "coalesced ?m as \<longrightarrow> coalesced ?m' as"
      using coalesced_mark_used [of 1 ?m as c] by simp
    moreover have "{a \<in> set as. used (?m' a) \<noteq> 0} = insert c {a \<in> set as. used (?m a) \<noteq> 0}"
      using c by auto
    ultimately show ?thesis unfolding t by blast
  next
    case True
    let ?nb = "c + ucast ?r" and ?a = "(sz + 15) AND NOT 15" and ?e = "data_size (?m c) - ?r"
    let ?m' = "?m(?nb := \<lparr>data_size = ?e, used = 0, nxt = nxt (?m c)\<rparr>,
                  c := \<lparr>data_size = ?a, used = 1, nxt = ?nb\<rparr>)"
    let ?as' = "insert_after c ?nb as"
    from r have ne: "?nb \<noteq> c" by (rule ucast_required_nonzero)
    have t: "take_block sz ?r ?m c = ?m'"
      using take_block_split [of ?r ?m c sz, OF True ne] .
    from laid_out_bounds [OF i(4) c]
    have cb: "unat c + 16 + unat (data_size (?m c)) \<le> unat base + ext" by simp
    have ur: "unat (ucast ?r :: addr) = unat ?r"
      by (simp add: unsigned_ucast_eq take_bit_nat_eq_self unsigned_less [of ?r, THEN less_trans])
    from True have lt: "unat ?r < unat (data_size (?m c))" by (simp add: word_less_nat_alt)
    with cb i(6) have "unat c + unat (ucast ?r :: addr) < 2 ^ LENGTH(64)" by (simp add: ur)
    then have "unat ?nb = unat c + unat (ucast ?r :: addr)" by (simp only: unat_add_lem)
    then have nb: "unat ?nb = unat c + unat ?r" by (simp add: ur)
    from r have "unat ?r \<noteq> 0" by (simp add: unat_eq_0)
    with nb have nb0: "?nb \<noteq> 0" by (metis add_is_0 unat_0)
    have ra: "unat ?r = unat ?a + 16" using r by (rule unat_required_size_alt)
    from True have "?r \<le> data_size (?m c)" by simp
    then have e: "unat ?e = unat (data_size (?m c)) - unat ?r" by (rule unat_sub)
    have notin: "?nb \<notin> set as"
    proof
      assume "?nb \<in> set as"
      from laid_out_apart [OF i(4) c this] nb lt ra show False by simp
    qed
    have g1: "unat ?nb = unat c + 16 + unat ?a" using nb ra by simp
    have g2: "unat ?a + 16 + unat ?e = unat (data_size (?m c))" using ra e lt by simp
    from split_layout_at [OF i(3) i(4) c notin nb0 g1 g2, of 1]
    have lay: "chain ?m' base ?as'" "laid_out ?m' (unat base) ?as' (unat base + ext)"
      by blast+
    have set: "set ?as' = insert ?nb (set as)" using c by (rule set_insert_after)
    from i(5) c have ca: "aligned16 c" "aligned16 (data_size (?m c))"
      by (simp_all add: list_all_iff)
    have al: "aligned16 ?nb" "aligned16 ?e"
      using ca aligned16_required_size [of sz]
      by (simp_all add: aligned16_add64 aligned16_ucast_up aligned16_diff32)
    have al3: "aligned16 ?a" by (rule aligned16_and_not_15)
    have "list_all (\<lambda>a. aligned16 a \<and> aligned16 (data_size (?m' a))) ?as'"
      unfolding list_all_iff set using i(5) al al3 ca by (auto simp add: list_all_iff)
    moreover from set have "?as' \<noteq> []" by auto
    ultimately have "heap_inv base ext (s\<lparr>mem := ?m'\<rparr>) ?as'"
      using i lay by (simp add: heap_inv_def)
    moreover have "coalesced ?m as \<longrightarrow> coalesced ?m' ?as'"
    proof
      assume "coalesced ?m as"
      moreover from i(4) have "distinct as" by (rule laid_out_distinct)
      ultimately show "coalesced ?m' ?as'"
        using c notin free by (intro split_coalesced) simp_all
    qed
    moreover have "{a \<in> set ?as'. used (?m' a) \<noteq> 0} = insert c {a \<in> set as. used (?m a) \<noteq> 0}"
      unfolding set using c ne notin by auto
    ultimately show ?thesis unfolding t by blast
  qed
qed

lemma dalloc_heap_inv:
  assumes inv: "heap_inv base ext s as" and d: "dalloc s sz = Some (s', p)"
    and r: "required_size sz \<noteq> 0"
  shows "\<exists>as'. heap_inv base ext s' as'"
proof (cases "find (fits (mem s) (required_size sz)) as")
  case None
  with d dalloc_result [OF inv, of sz] inv show ?thesis by auto
next
  case (Some c)
  then have c: "c \<in> set as" "fits (mem s) (required_size sz) c"
    by (auto simp add: find_Some_iff)
  from Some d dalloc_result [OF inv, of sz]
  have "s' = s\<lparr>mem := take_block sz (required_size sz) (mem s) c\<rparr>" by simp
  with take_block_heap_inv [OF inv c r] show ?thesis by blast
qed

text \<open>The split rule and the exact fit, as \<open>dalloc\<close> does them on a well-formed heap
  for a request that does not wrap to a requirement of 0.\<close>

lemma dalloc_split_rule:
  assumes "heap_inv base ext s as" and "dalloc s sz = Some (s', p)" and "p \<noteq> 0"
    and "required_size sz \<noteq> 0"
  shows "mem s' =
     (if required_size sz < data_size (mem s (p - 16))
      then (mem s)
        (p - 16 + ucast (required_size sz) :=
           \<lparr>data_size = data_size (mem s (p - 16)) - required_size sz, used = 0,
            nxt = nxt (mem s (p - 16))\<rparr>,
         p - 16 := \<lparr>data_size = (sz + 15) AND NOT 15, used = 1,
                    nxt = p - 16 + ucast (required_size sz)\<rparr>)
      else (mem s)(p - 16 := (mem s (p - 16))\<lparr>used := 1\<rparr>))"
proof -
  from dalloc_selected [OF assms(1-3)]
  obtain c where c: "c \<in> set as" "p = c + 16"
    and s': "s' = s\<lparr>mem := take_block sz (required_size sz) (mem s) c\<rparr>"
    by blast
  then have pc: "p - 16 = c" by simp
  show ?thesis
  proof (cases "required_size sz < data_size (mem s c)")
    case True
    from assms(4) have "c + ucast (required_size sz) \<noteq> c" by (rule ucast_required_nonzero)
    from take_block_split [of "required_size sz" "mem s" c sz, OF True this] True s' pc
    show ?thesis by simp
  next
    case False
    from take_block_exact [of "required_size sz" "mem s" c sz, OF False] False s' pc
    show ?thesis by simp
  qed
qed

text \<open>The instance of the specification: \<open>dalloc(100)\<close> on the fresh heap of 1 MiB.\<close>

lemma dalloc_100_fresh:
  "dalloc fresh_heap 100 =
     Some (\<lparr>start = 0x87F00000,
            mem = (\<lambda>_. \<lparr>data_size = 0, used = 0, nxt = 0\<rparr>)
              (0x87F00080 := \<lparr>data_size = 1048432, used = 0, nxt = 0\<rparr>,
               0x87F00000 := \<lparr>data_size = 112, used = 1, nxt = 0x87F00080\<rparr>)\<rparr>,
           0x87F00010)"
  by (simp add: eval_defs loops fun_eq_iff)


lemma heap_inv_capacity: "heap_inv base ext s as \<Longrightarrow> capacity (mem s) as = ext"
  using laid_out_capacity [of "mem s" "unat base" as "unat base + ext"]
  by (simp add: heap_inv_def)


lemma dfree_heap_inv:
  assumes "heap_inv base ext s as" and "dfree s p = Some (s', None)"
  shows "\<exists>as'. heap_inv base ext s' as' \<and> coalesced (mem s') as'"
proof -
  from assms(2) have c: "p - 16 \<in> set as"
    and co: "coalesce_blocks (s\<lparr>mem := (mem s)(p - 16 := (mem s (p - 16))\<lparr>used := 0\<rparr>)\<rparr>) = Some s'"
    by (auto simp add: dfree_cases [OF assms(1)] split: if_splits)
  from dfree_block [OF assms(1) c] co show ?thesis by auto
qed

text \<open>Capacity is conserved along every run whose requests do not wrap to a
  requirement of 0.\<close>

lemma conservation_without_wrap:
  assumes "valid_region PHYSTOP HEAP_SIZE" and "reachable_nowrap PHYSTOP HEAP_SIZE s"
  shows "\<exists>as. heap_inv (PHYSTOP - HEAP_SIZE) (unat HEAP_SIZE) s as \<and>
              capacity (mem s) as = unat HEAP_SIZE"
proof -
  from assms(2) have "\<exists>as. heap_inv (PHYSTOP - HEAP_SIZE) (unat HEAP_SIZE) s as"
  proof induction
    case (init s0)
    from dinit_heap_inv [OF assms(1)] show ?case by blast
  next
    case (alloc s sz s' p)
    then show ?case using dalloc_heap_inv by blast
  next
    case (free s p s')
    then show ?case using dfree_heap_inv by blast
  qed
  then show ?thesis using heap_inv_capacity by blast
qed

section \<open>Requests that wrap around\<close>

lemma coalesce_loop_self_loop:
  assumes "cur \<noteq> 0" and "nxt (m cur) = cur" and "used (m cur) = 0"
  shows "coalesce_loop m cur = None"
proof (rule ccontr)
  assume "coalesce_loop m cur \<noteq> None"
  then obtain m' where "coalesce_loop m cur = Some m'" by auto
  then have "\<not> (cur \<noteq> 0 \<and> nxt (m cur) = cur \<and> used (m cur) = 0)"
  proof (induction rule: coalesce_loop.raw_induct [rotated 1, consumes 1, case_names step])
    case (step coalesce_loop m cur m')
    show ?case
    proof
      assume a: "cur \<noteq> 0 \<and> nxt (m cur) = cur \<and> used (m cur) = 0"
      let ?m2 = "m(cur := (m cur)\<lparr>data_size := data_size (m cur) + (data_size (m cur) + HEADER_SIZE),
                                 nxt := cur\<rparr>)"
      from step(2) a have "coalesce_loop ?m2 cur = Some m'" by (simp add: Let_def)
      from step(1) [OF this] a show False by simp
    qed
  qed
  with assms show False by simp
qed

lemma dalloc_loop_used_self_loop:
  assumes "cur \<noteq> 0" and "nxt (m cur) = cur" and "used (m cur) \<noteq> 0"
  shows "dalloc_loop sz r m cur = None"
proof (rule ccontr)
  assume "dalloc_loop sz r m cur \<noteq> None"
  then obtain y where "dalloc_loop sz r m cur = Some y" by auto
  then have "\<not> (cur \<noteq> 0 \<and> nxt (m cur) = cur \<and> used (m cur) \<noteq> 0)"
  proof (induction rule: dalloc_loop.raw_induct [rotated 1, consumes 1, case_names step])
    case (step dalloc_loop sz r m cur y)
    show ?case
    proof
      assume a: "cur \<noteq> 0 \<and> nxt (m cur) = cur \<and> used (m cur) \<noteq> 0"
      with step(2) have "dalloc_loop sz r m cur = Some y" by simp
      from step(1) [OF this] a show False by simp
    qed
  qed
  with assms show False by simp
qed

text \<open>After the wrapped request no finite list of blocks describes the sequence.\<close>

lemma wrapped_heap_cyclic: "\<not> chain (mem wrapped_heap) (start wrapped_heap) as"
  by (induction as) (simp_all add: wrapped_heap_def)

text \<open>
  C1. The claim: in every state reached from \<open>dinit\<close> by calls of \<open>dalloc\<close> and \<open>dfree\<close>,
  the sum of header size and \<open>data_size\<close> over the blocks of the sequence is the heap
  extent. The call \<open>dalloc(0xFFFFFFF0)\<close> on the fresh heap of 1 MiB returns a pointer
  and leaves a block whose \<open>next\<close> is the block itself and whose header and data
  sizes sum to \<open>2 ^ 32\<close>.
\<close>

theorem conservation_lost_by_wrapped_request:
  "dalloc fresh_heap 0xFFFFFFF0 = Some (wrapped_heap, 0x87F00010) \<and>
   capacity (mem fresh_heap) [start fresh_heap] = 1048576 \<and>
   nxt (mem wrapped_heap (start wrapped_heap)) = start wrapped_heap \<and>
   capacity (mem wrapped_heap) [start wrapped_heap] = 4294967296"
  by (simp add: eval_defs loops wrapped_heap_def capacity_def fun_eq_iff)


text \<open>
  C5. The claim: after N successful calls of \<open>dalloc\<close> on the fresh heap and \<open>dfree\<close> of
  the N pointers, the heap is one free block again. With N = 1 and the request
  \<open>0xFFFFFFF0\<close> the call of \<open>dalloc\<close> succeeds, and the \<open>dfree\<close> of its pointer never
  returns; nor does any later \<open>dalloc\<close>.
\<close>

theorem no_reclaim_after_wrapped_request:
  "dalloc fresh_heap 0xFFFFFFF0 = Some (wrapped_heap, 0x87F00010) \<and>
   dfree wrapped_heap 0x87F00010 = None \<and>
   dalloc wrapped_heap 100 = None"
proof -
  have a: "dalloc fresh_heap 0xFFFFFFF0 = Some (wrapped_heap, 0x87F00010)"
    by (simp add: eval_defs loops wrapped_heap_def fun_eq_iff)
  let ?m1 = "(mem wrapped_heap)(0x87F00000 := (mem wrapped_heap 0x87F00000)\<lparr>used := 0\<rparr>)"
  have "coalesce_loop ?m1 0x87F00000 = None"
    by (rule coalesce_loop_self_loop) (simp_all add: wrapped_heap_def)
  then have f: "dfree wrapped_heap 0x87F00010 = None"
    by (simp add: dfree_def Let_def ALIGNMENT_SIZE_def dfree_loop.simps coalesce_blocks_def
        wrapped_heap_def)
  have "dalloc_loop 100 (required_size 100) (mem wrapped_heap) 0x87F00000 = None"
    by (rule dalloc_loop_used_self_loop) (simp_all add: wrapped_heap_def)
  then have "dalloc wrapped_heap 100 = None"
    by (simp add: dalloc_def wrapped_heap_def)
  with a f show ?thesis by simp
qed

lemma fresh_heap_inv: "heap_inv 0x87F00000 0x100000 fresh_heap [0x87F00000]"
  using dinit_heap_inv [OF valid_region_demo, of boot] by (simp add: fresh_heap_def)

text \<open>
  C3. The claim: the block a successful \<open>dalloc\<close> marks used is the earliest block that
  is free and has \<open>data_size >= required_size\<close>, with \<open>required_size\<close> the rounded sum of
  the request and the header size. On the fresh heap of 1 MiB, which is well formed,
  \<open>dalloc(0xFFFFFFF0)\<close> returns a pointer and marks used the block of 1048560 bytes,
  where the requirement is \<open>2 ^ 32\<close>: the block it takes does not satisfy the test.
\<close>

theorem first_fit_broken_by_wrapped_request:
  "heap_inv 0x87F00000 0x100000 fresh_heap [0x87F00000] \<and>
   dalloc fresh_heap 0xFFFFFFF0 = Some (wrapped_heap, 0x87F00010) \<and>
   used (mem wrapped_heap 0x87F00000) = 1 \<and>
   unat (data_size (mem fresh_heap 0x87F00000)) = 1048560 \<and>
   spec_required_size (unat (0xFFFFFFF0 :: uint)) = 4294967296 \<and>
   \<not> spec_fits (mem fresh_heap) (unat (0xFFFFFFF0 :: uint)) 0x87F00000"
proof -
  have "dalloc fresh_heap 0xFFFFFFF0 = Some (wrapped_heap, 0x87F00010)"
    by (simp add: eval_defs loops wrapped_heap_def fun_eq_iff)
  moreover have "used (mem wrapped_heap 0x87F00000) = 1" by (simp add: wrapped_heap_def)
  moreover have "unat (data_size (mem fresh_heap 0x87F00000)) = 1048560"
    by (simp add: eval_defs)
  moreover have "spec_required_size (unat (0xFFFFFFF0 :: uint)) = 4294967296"
    by (simp add: spec_required_size_def spec_round_up_def)
  ultimately show ?thesis using fresh_heap_inv by (simp add: spec_fits_def)
qed

text \<open>
  C6. The claim: \<open>dalloc\<close> returns none exactly when no block is free with
  \<open>data_size >= required_size\<close>, in particular when the requirement exceeds the whole
  heap, as for a request of the heap extent. On the fresh heap of 1 MiB the request
  \<open>0xFFFFFFFF\<close> has the requirement \<open>2 ^ 32 + 16\<close>, which no block has, and \<open>dalloc\<close>
  returns the pointer \<open>0x87F00010\<close>. On a fresh heap of extent \<open>0xFFFFFFF0\<close> the
  request of the extent returns a pointer.
\<close>

theorem null_iff_broken_by_wrapped_request:
  "heap_inv 0x87F00000 0x100000 fresh_heap [0x87F00000] \<and>
   spec_required_size (unat (0xFFFFFFFF :: uint)) = 4294967312 \<and>
   \<not> spec_fits (mem fresh_heap) (unat (0xFFFFFFFF :: uint)) 0x87F00000 \<and>
   map_option snd (dalloc fresh_heap 0xFFFFFFFF) = Some 0x87F00010 \<and>
   valid_region 0x200000000 0xFFFFFFF0 \<and>
   map_option snd (dalloc (dinit 0x200000000 0xFFFFFFF0 boot) 0xFFFFFFF0) = Some 0x100000020"
proof -
  have "spec_required_size (unat (0xFFFFFFFF :: uint)) = 4294967312"
    by (simp add: spec_required_size_def spec_round_up_def)
  moreover have "unat (data_size (mem fresh_heap 0x87F00000)) = 1048560"
    by (simp add: eval_defs)
  moreover have "map_option snd (dalloc fresh_heap 0xFFFFFFFF) = Some 0x87F00010"
    by (simp add: eval_defs loops)
  moreover have "valid_region 0x200000000 0xFFFFFFF0"
    by (simp add: valid_region_def aligned16_def)
  moreover have "map_option snd (dalloc (dinit 0x200000000 0xFFFFFFF0 boot) 0xFFFFFFF0) =
      Some 0x100000020"
    by (simp add: eval_defs loops)
  ultimately show ?thesis using fresh_heap_inv by (simp add: spec_fits_def)
qed

section \<open>Full reclaim without wrap-around\<close>

lemma dalloc_tidy:
  assumes t: "tidy base ext s U" and d: "dalloc s sz = Some (s', p)" and p: "p \<noteq> 0"
    and r: "required_size sz \<noteq> 0"
  shows "p - 16 \<notin> U \<and> tidy base ext s' (insert (p - 16) U)"
proof -
  from t obtain as where inv: "heap_inv base ext s as" and co: "coalesced (mem s) as"
    and U: "U = {a \<in> set as. used (mem s a) \<noteq> 0}"
    unfolding tidy_def by blast
  from dalloc_selected [OF inv d p]
  obtain c where c: "c \<in> set as" "fits (mem s) (required_size sz) c" "p = c + 16"
    and s': "s' = s\<lparr>mem := take_block sz (required_size sz) (mem s) c\<rparr>"
    by blast
  then have pc: "p - 16 = c" by simp
  from c(2) U have "c \<notin> U" by (simp add: fits_def)
  moreover from take_block_heap_inv [OF inv c(1,2) r] co U
  have "tidy base ext s' (insert c U)"
    unfolding tidy_def s' by auto
  ultimately show ?thesis using pc by simp
qed

lemma dfree_tidy:
  assumes t: "tidy base ext s U" and q: "q - 16 \<in> U"
  shows "\<exists>s'. dfree s q = Some (s', None) \<and> tidy base ext s' (U - {q - 16})"
proof -
  let ?c = "q - 16"
  let ?m1 = "(mem s)(?c := (mem s ?c)\<lparr>used := 0\<rparr>)"
  from t obtain as where inv: "heap_inv base ext s as"
    and U: "U = {a \<in> set as. used (mem s a) \<noteq> 0}"
    unfolding tidy_def by blast
  from q U have c: "?c \<in> set as" by simp
  with inv have al: "aligned16 ?c" by (simp add: heap_inv_def list_all_iff)
  from dfree_block [OF inv c]
  obtain s' as' where r: "coalesce_blocks (s\<lparr>mem := ?m1\<rparr>) = Some s'"
    "heap_inv base ext s' as'" "coalesced (mem s') as'" "coalesce_post ?m1 as (mem s') as'"
    by blast
  from r(4) have post: "set as' \<subseteq> set as"
    "\<And>a. a \<in> set as' \<Longrightarrow> used (mem s' a) = used (?m1 a)"
    "\<And>a. a \<in> set as \<Longrightarrow> used (?m1 a) \<noteq> 0 \<Longrightarrow> a \<in> set as'"
    unfolding coalesce_post_def by blast+
  have "{a \<in> set as'. used (mem s' a) \<noteq> 0} = U - {?c}"
  proof (intro set_eqI iffI)
    fix a assume "a \<in> {a \<in> set as'. used (mem s' a) \<noteq> 0}"
    then have a: "a \<in> set as'" "used (?m1 a) \<noteq> 0" using post(2) by auto
    then have "a \<noteq> ?c" by auto
    with a post(1) U show "a \<in> U - {?c}" by auto
  next
    fix a assume "a \<in> U - {?c}"
    with U have a: "a \<in> set as" "used (?m1 a) \<noteq> 0" by auto
    from post(3) [OF this] post(2) [of a] a(2)
    show "a \<in> {a \<in> set as'. used (mem s' a) \<noteq> 0}" by simp
  qed
  with r(2,3) have "tidy base ext s' (U - {?c})" unfolding tidy_def by blast
  moreover have "dfree s q = Some (s', None)"
    using al c r(1) by (simp add: dfree_cases [OF inv])
  ultimately show ?thesis by blast
qed

lemma tidy_empty:
  assumes "tidy base ext s {}"
  shows "start s = base \<and> used (mem s base) = 0 \<and> nxt (mem s base) = 0 \<and>
         unat (data_size (mem s base)) + 16 = ext"
proof -
  from assms obtain as where inv: "heap_inv base ext s as" and co: "coalesced (mem s) as"
    and U: "{a \<in> set as. used (mem s a) \<noteq> 0} = {}"
    unfolding tidy_def by blast
  from inv have i: "start s = base" "as \<noteq> []" "chain (mem s) base as"
    "laid_out (mem s) (unat base) as (unat base + ext)"
    by (simp_all add: heap_inv_def)
  from i(2) obtain a bs where as: "as = a # bs" by (cases as) auto
  have "bs = []"
  proof (cases bs)
    case Nil
    then show ?thesis .
  next
    case (Cons b cs)
    with co as have "\<not> (used (mem s a) = 0 \<and> used (mem s b) = 0)" by simp
    moreover from U as Cons have "used (mem s a) = 0" "used (mem s b) = 0" by auto
    ultimately show ?thesis by simp
  qed
  with as i U show ?thesis by auto
qed

lemma dinit_tidy:
  assumes "valid_region PHYSTOP HEAP_SIZE"
  shows "tidy (PHYSTOP - HEAP_SIZE) (unat HEAP_SIZE) (dinit PHYSTOP HEAP_SIZE s0) {}"
  unfolding tidy_def
  using dinit_heap_inv [OF assms, of s0]
  by (intro exI [of _ "[PHYSTOP - HEAP_SIZE]"]) (simp add: dinit_fields)

lemma alloc_all_tidy:
  assumes "tidy base ext s U" and "alloc_all s szs = Some (s', ps)"
    and "\<forall>sz \<in> set szs. required_size sz \<noteq> 0"
  shows "tidy base ext s' (U \<union> (\<lambda>p. p - 16) ` set ps) \<and> distinct ps \<and>
         (\<lambda>p. p - 16) ` set ps \<inter> U = {}"
  using assms
proof (induction szs arbitrary: s U ps)
  case Nil
  then show ?case by simp
next
  case (Cons sz szs)
  from Cons.prems(2) obtain s1 p ps' where
    d: "dalloc s sz = Some (s1, p)" "p \<noteq> 0" and
    rest: "alloc_all s1 szs = Some (s', ps')" and ps: "ps = p # ps'"
    by (auto split: option.splits if_splits)
  from Cons.prems(3) have r: "required_size sz \<noteq> 0" "\<forall>sz \<in> set szs. required_size sz \<noteq> 0"
    by simp_all
  from dalloc_tidy [OF Cons.prems(1) d r(1)]
  have t1: "p - 16 \<notin> U" "tidy base ext s1 (insert (p - 16) U)" by simp_all
  from Cons.IH [OF t1(2) rest r(2)]
  have ih: "tidy base ext s' (insert (p - 16) U \<union> (\<lambda>p. p - 16) ` set ps')" "distinct ps'"
    "(\<lambda>p. p - 16) ` set ps' \<inter> insert (p - 16) U = {}"
    by simp_all
  from ih(3) have "p \<notin> set ps'" by auto
  with ih t1(1) ps show ?case by (auto simp add: Un_commute insert_commute)
qed

lemma free_all_tidy:
  assumes "tidy base ext s U" and "distinct qs" and "U = (\<lambda>p. p - 16) ` set qs"
  shows "\<exists>s'. free_all s qs = Some s' \<and> tidy base ext s' {}"
  using assms
proof (induction qs arbitrary: s U)
  case Nil
  then show ?case by simp
next
  case (Cons q qs)
  from Cons.prems(3) have "q - 16 \<in> U" by simp
  from dfree_tidy [OF Cons.prems(1) this]
  obtain s1 where s1: "dfree s q = Some (s1, None)" "tidy base ext s1 (U - {q - 16})"
    by blast
  from Cons.prems(2) have nq: "q \<notin> set qs" by simp
  have "U - {q - 16} = (\<lambda>p. p - 16) ` set qs"
  proof (intro set_eqI iffI)
    fix a assume "a \<in> U - {q - 16}"
    with Cons.prems(3) show "a \<in> (\<lambda>p. p - 16) ` set qs" by auto
  next
    fix a assume "a \<in> (\<lambda>p. p - 16) ` set qs"
    then obtain p where p: "p \<in> set qs" "a = p - 16" by blast
    with nq have "p \<noteq> q" by blast
    then have "p - 16 \<noteq> q - 16" by simp
    with p Cons.prems(3) show "a \<in> U - {q - 16}" by simp
  qed
  with Cons.IH [OF s1(2)] Cons.prems(2)
  obtain s' where "free_all s1 qs = Some s'" "tidy base ext s' {}" by auto
  with s1(1) show ?case by simp
qed

text \<open>Full reclaim: \<open>dalloc\<close> any number of blocks on a fresh heap, none of the requests
  wrapping to a requirement of 0 and all of them successful, then \<open>dfree\<close> the pointers
  in any order. Every call returns, and the heap is again the single free block of
  \<open>dinit\<close>.\<close>

lemma full_reclaim_without_wrap:
  assumes "valid_region PHYSTOP HEAP_SIZE"
    and "\<forall>sz \<in> set szs. required_size sz \<noteq> 0"
    and "alloc_all (dinit PHYSTOP HEAP_SIZE s0) szs = Some (s, ps)"
    and "set qs = set ps" and "distinct qs"
  shows "\<exists>s'. free_all s qs = Some s' \<and> start s' = PHYSTOP - HEAP_SIZE \<and>
           used (mem s' (PHYSTOP - HEAP_SIZE)) = 0 \<and> nxt (mem s' (PHYSTOP - HEAP_SIZE)) = 0 \<and>
           unat (data_size (mem s' (PHYSTOP - HEAP_SIZE))) = unat HEAP_SIZE - 16"
proof -
  from alloc_all_tidy [OF dinit_tidy [OF assms(1)] assms(3) assms(2)]
  have "tidy (PHYSTOP - HEAP_SIZE) (unat HEAP_SIZE) s ((\<lambda>p. p - 16) ` set ps)" by simp
  from free_all_tidy [OF this assms(5)] assms(4)
  obtain s' where "free_all s qs = Some s'" "tidy (PHYSTOP - HEAP_SIZE) (unat HEAP_SIZE) s' {}"
    by auto
  with tidy_empty [OF this(2)] show ?thesis by auto
qed

end
